theory Spec2Isabelle
  imports Main "HOL-Library.Word" "HOL-Library.Sublist"
begin

section \<open>The board: pins, clock and the record of what the sketch did\<close>

text \<open>
  The sketch \<^verbatim>\<open>WearableTurnSignal.ino\<close> talks to the world through five Arduino calls:
  \<^verbatim>\<open>digitalRead\<close>, \<^verbatim>\<open>digitalWrite\<close>, \<^verbatim>\<open>millis\<close>, \<^verbatim>\<open>delay\<close> and \<^verbatim>\<open>delayMicroseconds\<close>.
  A pin number is a \<^verbatim>\<open>byte\<close>; \<^verbatim>\<open>millis()\<close> and \<^verbatim>\<open>interval\<close> are \<^verbatim>\<open>long unsigned int\<close>,
  32 bits wide on the boards the header names, so \<^verbatim>\<open>millis() - start_time\<close> wraps.
\<close>

type_synonym byte = "8 word"
type_synonym ulong = "32 word"

text \<open>\<^verbatim>\<open>enum blinkerstate : byte { off, left, right, hazards }\<close>\<close>

datatype blinkerstate = off | left | right | hazards

text \<open>
  Everything the sketch does to the board is appended to a log, oldest event first.
  \<open>Sampled s\<close> marks the return of \<^verbatim>\<open>readButtonStates\<close> with value \<open>s\<close>; the other
  events are the Arduino calls with their arguments (and, for a read, the value read).
\<close>

datatype event =
    Write byte bool
  | Read byte bool
  | Millis ulong
  | DelayMs nat
  | DelayUs nat
  | Sampled blinkerstate

text \<open>
  The board. \<open>port\<close> is the level last written to each pin. What the board answers is
  not decided by the sketch: \<open>pin_in k p\<close> is the level the \<open>k\<close>-th call of
  \<^verbatim>\<open>digitalRead\<close> finds on pin \<open>p\<close>, \<open>clock k\<close> is the value of the \<open>k\<close>-th call of
  \<^verbatim>\<open>millis\<close>; \<open>reads\<close> and \<open>ticks\<close> count the calls made so far. Both answers are
  arbitrary functions, so every behaviour of buttons and timer is covered.
\<close>

record world =
  port :: "byte \<Rightarrow> bool"
  pin_in :: "nat \<Rightarrow> byte \<Rightarrow> bool"
  clock :: "nat \<Rightarrow> ulong"
  reads :: nat
  ticks :: nat
  log :: "event list"

definition digitalWrite :: "byte \<Rightarrow> bool \<Rightarrow> world \<Rightarrow> world" where
  "digitalWrite p v w = w\<lparr>port := (port w)(p := v), log := log w @ [Write p v]\<rparr>"

definition digitalRead :: "byte \<Rightarrow> world \<Rightarrow> bool \<times> world" where
  "digitalRead p w =
     (pin_in w (reads w) p,
      w\<lparr>reads := Suc (reads w), log := log w @ [Read p (pin_in w (reads w) p)]\<rparr>)"

definition millis :: "world \<Rightarrow> ulong \<times> world" where
  "millis w = (clock w (ticks w), w\<lparr>ticks := Suc (ticks w), log := log w @ [Millis (clock w (ticks w))]\<rparr>)"

definition delay :: "nat \<Rightarrow> world \<Rightarrow> world" where
  "delay ms w = w\<lparr>log := log w @ [DelayMs ms]\<rparr>"

definition delayMicroseconds :: "nat \<Rightarrow> world \<Rightarrow> world" where
  "delayMicroseconds us w = w\<lparr>log := log w @ [DelayUs us]\<rparr>"

text \<open>The events a run added to the log, and the port they lead to.\<close>

definition events_since :: "world \<Rightarrow> world \<Rightarrow> event list" where
  "events_since w w' = drop (length (log w)) (log w')"

fun apply_event :: "(byte \<Rightarrow> bool) \<Rightarrow> event \<Rightarrow> (byte \<Rightarrow> bool)" where
  "apply_event f (Write p v) = f(p := v)"
| "apply_event f _ = f"

definition port_after :: "(byte \<Rightarrow> bool) \<Rightarrow> event list \<Rightarrow> (byte \<Rightarrow> bool)" where
  "port_after f es = foldl apply_event f es"

fun is_write :: "event \<Rightarrow> bool" where
  "is_write (Write p v) = True"
| "is_write _ = False"

section \<open>The sketch's constants\<close>

text \<open>
  \<^verbatim>\<open>A0\<close> is a macro of the Arduino core, not of the sketch: 14 on the ATmega328 boards
  the header comment lists (Uno, Pro Trinket). The proofs use of this number only that
  it is none of the eight signal pins. The other constants are the sketch's globals;
  \<^verbatim>\<open>interval\<close> is never assigned after its initialisation.
\<close>

definition A0 :: byte where "A0 = 14"

definition leftButtonPin :: byte where "leftButtonPin = 13"
definition rightButtonPin :: byte where "rightButtonPin = 8"
definition buzzerPin :: byte where "buzzerPin = A0"
definition num_signal_lights :: nat where "num_signal_lights = 4"
definition leftSignalPins :: "byte list" where "leftSignalPins = [9, 10, 11, 12]"
definition rightSignalPins :: "byte list" where "rightSignalPins = [3, 4, 5, 6]"
definition interval :: ulong where "interval = 500"

section \<open>The functions of the sketch\<close>

text \<open>
  \<^verbatim>\<open>readButtonStates\<close>: the nested \<^verbatim>\<open>if\<close> of the source, each branch with its own
  read of the right button, then \<^verbatim>\<open>delay(1)\<close> and the return.
\<close>

definition readButtonStates :: "world \<Rightarrow> blinkerstate \<times> world" where
  "readButtonStates w =
     (case digitalRead leftButtonPin w of (l, w1) \<Rightarrow>
       (case (if l then
                (case digitalRead rightButtonPin w1 of (r, w2) \<Rightarrow>
                   (if r then hazards else left, w2))
              else
                (case digitalRead rightButtonPin w1 of (r, w2) \<Rightarrow>
                   (if r then right else off, w2)))
        of (state, w3) \<Rightarrow>
          (case delay 1 w3 of w4 \<Rightarrow> (state, w4\<lparr>log := log w4 @ [Sampled state]\<rparr>))))"

text \<open>
  \<^verbatim>\<open>disableSignals\<close> and \<^verbatim>\<open>buzzerClick\<close>: \<^verbatim>\<open>for\<close> loops with a constant bound, run as
  a fold over the index values. The \<^verbatim>\<open>int\<close> index stays below 8, far from overflow.
\<close>

definition disableSignals :: "world \<Rightarrow> world" where
  "disableSignals w =
     foldl (\<lambda>w i. digitalWrite (rightSignalPins ! i) False
                    (digitalWrite (leftSignalPins ! i) False w))
           w [0..<num_signal_lights]"

definition buzzerClick :: "world \<Rightarrow> world" where
  "buzzerClick w =
     foldl (\<lambda>w i. delayMicroseconds 128 (digitalWrite buzzerPin False
                    (delayMicroseconds 128 (digitalWrite buzzerPin True w))))
           w [0..<8::nat]"

text \<open>
  The four wait loops of the source,
  \<^verbatim>\<open>while (millis() - start_time < interval && flag) { readButtonStates() == mode ? flag = true : flag = false; }\<close>.
  Such a loop never ends while the clock stands still, so it carries fuel: the number of
  times the body may still run. The condition is evaluated in any case (\<^verbatim>\<open>millis()\<close>
  first, then the flag, as \<^verbatim>\<open>&&\<close> does); a run that needs the body with no fuel left
  stops with \<open>None\<close> and the world as it is then. \<open>Some flag\<close> is a normal exit.
\<close>

fun left_wait :: "nat \<Rightarrow> ulong \<Rightarrow> bool \<Rightarrow> world \<Rightarrow> bool option \<times> world" where
  "left_wait 0 start_time left_turn w =
     (case millis w of (now, w1) \<Rightarrow>
        if now - start_time < interval \<and> left_turn then (None, w1)
        else (Some left_turn, w1))"
| "left_wait (Suc n) start_time left_turn w =
     (case millis w of (now, w1) \<Rightarrow>
        if now - start_time < interval \<and> left_turn then
          (case readButtonStates w1 of (s, w2) \<Rightarrow> left_wait n start_time (s = left) w2)
        else (Some left_turn, w1))"

fun right_wait :: "nat \<Rightarrow> ulong \<Rightarrow> bool \<Rightarrow> world \<Rightarrow> bool option \<times> world" where
  "right_wait 0 start_time right_turn w =
     (case millis w of (now, w1) \<Rightarrow>
        if now - start_time < interval \<and> right_turn then (None, w1)
        else (Some right_turn, w1))"
| "right_wait (Suc n) start_time right_turn w =
     (case millis w of (now, w1) \<Rightarrow>
        if now - start_time < interval \<and> right_turn then
          (case readButtonStates w1 of (s, w2) \<Rightarrow> right_wait n start_time (s = right) w2)
        else (Some right_turn, w1))"

fun hazard_wait :: "nat \<Rightarrow> ulong \<Rightarrow> bool \<Rightarrow> world \<Rightarrow> bool option \<times> world" where
  "hazard_wait 0 start_time hazard_lights w =
     (case millis w of (now, w1) \<Rightarrow>
        if now - start_time < interval \<and> hazard_lights then (None, w1)
        else (Some hazard_lights, w1))"
| "hazard_wait (Suc n) start_time hazard_lights w =
     (case millis w of (now, w1) \<Rightarrow>
        if now - start_time < interval \<and> hazard_lights then
          (case readButtonStates w1 of (s, w2) \<Rightarrow> hazard_wait n start_time (s = hazards) w2)
        else (Some hazard_lights, w1))"

text \<open>
  \<^verbatim>\<open>for (int i = 0; i < num_signal_lights && left_turn; i++)\<close> of \<^verbatim>\<open>leftTurnSignal\<close>:
  light slot \<open>i\<close>, click, take the start time, wait. The loop runs at most
  \<open>num_signal_lights\<close> times; only its wait needs the fuel.
\<close>

function left_for :: "nat \<Rightarrow> nat \<Rightarrow> bool \<Rightarrow> world \<Rightarrow> bool option \<times> world" where
  "left_for n i left_turn w =
     (if i < num_signal_lights \<and> left_turn then
        (case millis (buzzerClick (digitalWrite (leftSignalPins ! i) True w)) of
           (start_time, w1) \<Rightarrow>
             (case left_wait n start_time left_turn w1 of
                (None, w2) \<Rightarrow> (None, w2)
              | (Some lt, w2) \<Rightarrow> left_for n (Suc i) lt w2))
      else (Some left_turn, w))"
  by pat_completeness auto
termination
  by (relation "measure (\<lambda>(n, i, lt, w). num_signal_lights - i)") auto

function right_for :: "nat \<Rightarrow> nat \<Rightarrow> bool \<Rightarrow> world \<Rightarrow> bool option \<times> world" where
  "right_for n i right_turn w =
     (if i < num_signal_lights \<and> right_turn then
        (case millis (buzzerClick (digitalWrite (rightSignalPins ! i) True w)) of
           (start_time, w1) \<Rightarrow>
             (case right_wait n start_time right_turn w1 of
                (None, w2) \<Rightarrow> (None, w2)
              | (Some rt, w2) \<Rightarrow> right_for n (Suc i) rt w2))
      else (Some right_turn, w))"
  by pat_completeness auto
termination
  by (relation "measure (\<lambda>(n, i, rt, w). num_signal_lights - i)") auto

text \<open>
  \<^verbatim>\<open>while (left_turn) { disableSignals(); for ... }\<close>. The fuel bounds the passes of
  this loop too, and each pass hands what is left of it to the waits inside.
  \<open>Some ()\<close> is the return of the function, \<open>None\<close> a run cut short by the fuel.
\<close>

fun left_while :: "nat \<Rightarrow> bool \<Rightarrow> world \<Rightarrow> unit option \<times> world" where
  "left_while 0 left_turn w = (if left_turn then (None, w) else (Some (), w))"
| "left_while (Suc n) left_turn w =
     (if left_turn then
        (case left_for n 0 left_turn (disableSignals w) of
           (None, w1) \<Rightarrow> (None, w1)
         | (Some lt, w1) \<Rightarrow> left_while n lt w1)
      else (Some (), w))"

definition leftTurnSignal :: "nat \<Rightarrow> world \<Rightarrow> unit option \<times> world" where
  "leftTurnSignal n w = left_while n True w"

fun right_while :: "nat \<Rightarrow> bool \<Rightarrow> world \<Rightarrow> unit option \<times> world" where
  "right_while 0 right_turn w = (if right_turn then (None, w) else (Some (), w))"
| "right_while (Suc n) right_turn w =
     (if right_turn then
        (case right_for n 0 right_turn (disableSignals w) of
           (None, w1) \<Rightarrow> (None, w1)
         | (Some rt, w1) \<Rightarrow> right_while n rt w1)
      else (Some (), w))"

definition rightTurnSignal :: "nat \<Rightarrow> world \<Rightarrow> unit option \<times> world" where
  "rightTurnSignal n w = right_while n True w"

text \<open>
  \<^verbatim>\<open>engageHazardLights\<close>. \<open>all_lights_on\<close> is its inner \<^verbatim>\<open>for\<close> loop, \<open>hazard_cycle\<close>
  one pass of the body of \<^verbatim>\<open>while (hazard_lights)\<close>: blank, click, wait, all lights
  on, click, wait. Nothing between the two waits looks at \<^verbatim>\<open>hazard_lights\<close>.
\<close>

definition all_lights_on :: "world \<Rightarrow> world" where
  "all_lights_on w =
     foldl (\<lambda>w i. digitalWrite (rightSignalPins ! i) True
                    (digitalWrite (leftSignalPins ! i) True w))
           w [0..<num_signal_lights]"

definition hazard_cycle :: "nat \<Rightarrow> bool \<Rightarrow> world \<Rightarrow> bool option \<times> world" where
  "hazard_cycle n hazard_lights w =
     (case millis (buzzerClick (disableSignals w)) of (start_time, w1) \<Rightarrow>
        (case hazard_wait n start_time hazard_lights w1 of
           (None, w2) \<Rightarrow> (None, w2)
         | (Some hl, w2) \<Rightarrow>
             (case millis (buzzerClick (all_lights_on w2)) of (start_time', w3) \<Rightarrow>
                hazard_wait n start_time' hl w3)))"

fun hazard_while :: "nat \<Rightarrow> bool \<Rightarrow> world \<Rightarrow> unit option \<times> world" where
  "hazard_while 0 hazard_lights w = (if hazard_lights then (None, w) else (Some (), w))"
| "hazard_while (Suc n) hazard_lights w =
     (if hazard_lights then
        (case hazard_cycle n hazard_lights w of
           (None, w1) \<Rightarrow> (None, w1)
         | (Some hl, w1) \<Rightarrow> hazard_while n hl w1)
      else (Some (), w))"

definition engageHazardLights :: "nat \<Rightarrow> world \<Rightarrow> unit option \<times> world" where
  "engageHazardLights n w = hazard_while n True w"

section \<open>One description for the two turn signals\<close>

text \<open>
  \<^verbatim>\<open>leftTurnSignal\<close> and \<^verbatim>\<open>rightTurnSignal\<close> differ in the bank they light and the mode
  they wait for, and the wait loops in the mode only. The functions below take both as
  parameters; they are proved equal to the ones above and carry the proofs.
\<close>

fun wait_for :: "blinkerstate \<Rightarrow> nat \<Rightarrow> ulong \<Rightarrow> bool \<Rightarrow> world \<Rightarrow> bool option \<times> world" where
  "wait_for m 0 start_time flag w =
     (case millis w of (now, w1) \<Rightarrow>
        if now - start_time < interval \<and> flag then (None, w1) else (Some flag, w1))"
| "wait_for m (Suc n) start_time flag w =
     (case millis w of (now, w1) \<Rightarrow>
        if now - start_time < interval \<and> flag then
          (case readButtonStates w1 of (s, w2) \<Rightarrow> wait_for m n start_time (s = m) w2)
        else (Some flag, w1))"

function chase_for ::
  "byte list \<Rightarrow> blinkerstate \<Rightarrow> nat \<Rightarrow> nat \<Rightarrow> bool \<Rightarrow> world \<Rightarrow> bool option \<times> world" where
  "chase_for pins m n i flag w =
     (if i < num_signal_lights \<and> flag then
        (case millis (buzzerClick (digitalWrite (pins ! i) True w)) of
           (start_time, w1) \<Rightarrow>
             (case wait_for m n start_time flag w1 of
                (None, w2) \<Rightarrow> (None, w2)
              | (Some f, w2) \<Rightarrow> chase_for pins m n (Suc i) f w2))
      else (Some flag, w))"
  by pat_completeness auto
termination
  by (relation "measure (\<lambda>(pins, m, n, i, f, w). num_signal_lights - i)") auto

fun chase_while ::
  "byte list \<Rightarrow> blinkerstate \<Rightarrow> nat \<Rightarrow> bool \<Rightarrow> world \<Rightarrow> unit option \<times> world" where
  "chase_while pins m 0 flag w = (if flag then (None, w) else (Some (), w))"
| "chase_while pins m (Suc n) flag w =
     (if flag then
        (case chase_for pins m n 0 flag (disableSignals w) of
           (None, w1) \<Rightarrow> (None, w1)
         | (Some f, w1) \<Rightarrow> chase_while pins m n f w1)
      else (Some (), w))"

section \<open>Vocabulary of the properties\<close>

subsection \<open>The truth table and the fixed runs of events\<close>

text \<open>
  The truth table of the specification, section 4.1, for comparison with the code.
\<close>

fun truth_table :: "bool \<Rightarrow> bool \<Rightarrow> blinkerstate" where
  "truth_table True True = hazards"
| "truth_table True False = left"
| "truth_table False True = right"
| "truth_table False False = off"

text \<open>
  The events of one click, of one blanking pass and of the loop that lights every
  output, in the order of the source; \<open>slot_events p st\<close> is what lighting one slot adds
  before its wait begins: the HIGH write, the click, and the reading \<open>st\<close> of
  \<^verbatim>\<open>start_time = millis()\<close>.
\<close>

definition click_events :: "event list" where
  "click_events =
     concat (replicate 8 [Write buzzerPin True, DelayUs 128, Write buzzerPin False, DelayUs 128])"

definition blank_events :: "event list" where
  "blank_events =
     concat (map (\<lambda>i. [Write (leftSignalPins ! i) False, Write (rightSignalPins ! i) False])
                 [0..<num_signal_lights])"

definition lights_on_events :: "event list" where
  "lights_on_events =
     concat (map (\<lambda>i. [Write (leftSignalPins ! i) True, Write (rightSignalPins ! i) True])
                 [0..<num_signal_lights])"

definition slot_events :: "byte \<Rightarrow> ulong \<Rightarrow> event list" where
  "slot_events p st = Write p True # click_events @ [Millis st]"

subsection \<open>Samples, waits and cancellation\<close>

text \<open>
  \<open>keeps m e\<close>: the event \<open>e\<close> is not a sample of a mode other than \<open>m\<close>.
  \<open>quiet e\<close>: \<open>e\<close> is neither a pin write nor a microsecond delay, so it is a clock
  reading or part of a sample. \<open>timed_out st es\<close>: the events \<open>es\<close> of a wait end with a
  clock reading \<open>t\<close> for which the loop condition \<^verbatim>\<open>t - st < interval\<close> is false.
  \<open>cancelled m es\<close>: \<open>es\<close> ends with a sample other than \<open>m\<close>, the first such sample
  in \<open>es\<close>, and one clock reading after it.
\<close>

fun keeps :: "blinkerstate \<Rightarrow> event \<Rightarrow> bool" where
  "keeps m (Sampled s) = (s = m)"
| "keeps m _ = True"

fun quiet :: "event \<Rightarrow> bool" where
  "quiet (Write p v) = False"
| "quiet (DelayUs n) = False"
| "quiet _ = True"

definition timed_out :: "ulong \<Rightarrow> event list \<Rightarrow> bool" where
  "timed_out st es = (es \<noteq> [] \<and> (\<exists>t. last es = Millis t \<and> \<not> t - st < interval))"

definition cancelled :: "blinkerstate \<Rightarrow> event list \<Rightarrow> bool" where
  "cancelled m es = (\<exists>pre s t. es = pre @ [Sampled s, Millis t] \<and> s \<noteq> m \<and> list_all (keeps m) pre)"

text \<open>
  What the events of a loop look like, given the flag it started with and its result:
  a loop cut by the fuel and a loop that ends with the flag set have seen no cancelling
  sample; a loop that clears the flag ends right after the cancelling sample.
\<close>

definition wait_shape :: "blinkerstate \<Rightarrow> ulong \<Rightarrow> bool \<Rightarrow> bool option \<Rightarrow> event list \<Rightarrow> bool" where
  "wait_shape m st flag r es =
     (case r of
        None \<Rightarrow> flag \<and> list_all (keeps m) es
      | Some True \<Rightarrow> flag \<and> list_all (keeps m) es \<and> timed_out st es
      | Some False \<Rightarrow> if flag then cancelled m es else (\<exists>t. es = [Millis t]))"

definition for_shape :: "blinkerstate \<Rightarrow> bool \<Rightarrow> bool option \<Rightarrow> event list \<Rightarrow> bool" where
  "for_shape m flag r es =
     (case r of
        None \<Rightarrow> flag \<and> list_all (keeps m) es
      | Some True \<Rightarrow> flag \<and> list_all (keeps m) es
      | Some False \<Rightarrow> if flag then cancelled m es else es = [])"

definition while_shape :: "blinkerstate \<Rightarrow> bool \<Rightarrow> unit option \<Rightarrow> event list \<Rightarrow> bool" where
  "while_shape m flag r es =
     (case r of
        None \<Rightarrow> flag \<and> list_all (keeps m) es
      | Some u \<Rightarrow> if flag then cancelled m es else es = [])"

subsection \<open>Which outputs are lit\<close>

text \<open>
  \<open>lit_upto pins other k f\<close>: in the port \<open>f\<close>, of the bank \<open>pins\<close> exactly the first
  \<open>k\<close> slots are HIGH, and the bank \<open>other\<close> is LOW throughout. \<open>filling\<close> says so for
  some \<open>k\<close> from 1 to \<open>num_signal_lights\<close>. \<open>at_most_one_lit\<close> is the chase as the
  specification's glossary words it. \<open>at_samples P f es\<close> replays \<open>es\<close> from the port
  \<open>f\<close> and asks for \<open>P\<close> of the port each time a sample is taken. \<open>bank pins other\<close>
  collects what the proofs use of the two pin arrays.
\<close>

definition lit_upto :: "byte list \<Rightarrow> byte list \<Rightarrow> nat \<Rightarrow> (byte \<Rightarrow> bool) \<Rightarrow> bool" where
  "lit_upto pins other k f =
     (map f pins = map (\<lambda>j. j < k) [0..<length pins] \<and> list_all (\<lambda>q. \<not> f q) other)"

definition filling :: "byte list \<Rightarrow> byte list \<Rightarrow> (byte \<Rightarrow> bool) \<Rightarrow> bool" where
  "filling pins other f = (\<exists>k. 0 < k \<and> k \<le> num_signal_lights \<and> lit_upto pins other k f)"

definition at_most_one_lit :: "byte list \<Rightarrow> (byte \<Rightarrow> bool) \<Rightarrow> bool" where
  "at_most_one_lit pins f = (length (filter f pins) \<le> 1)"

fun at_samples :: "((byte \<Rightarrow> bool) \<Rightarrow> bool) \<Rightarrow> (byte \<Rightarrow> bool) \<Rightarrow> event list \<Rightarrow> bool" where
  "at_samples P f [] = True"
| "at_samples P f (Sampled s # es) = (P f \<and> at_samples P f es)"
| "at_samples P f (e # es) = at_samples P (apply_event f e) es"

definition bank :: "byte list \<Rightarrow> byte list \<Rightarrow> bool" where
  "bank pins other =
     (length pins = num_signal_lights \<and> distinct pins \<and> buzzerPin \<notin> set pins
      \<and> set pins \<inter> set other = {}
      \<and> set pins \<union> set other \<subseteq> set leftSignalPins \<union> set rightSignalPins)"

text \<open>
  \<open>activations es\<close>: the signal pins written HIGH in \<open>es\<close>, in order (the buzzer's
  own HIGH writes left out).
\<close>

fun lit_by :: "event \<Rightarrow> byte list" where
  "lit_by (Write p v) = (if v \<and> p \<noteq> buzzerPin then [p] else [])"
| "lit_by _ = []"

definition activations :: "event list \<Rightarrow> byte list" where
  "activations es = concat (map lit_by es)"

subsection \<open>Pacing\<close>

text \<open>
  \<open>waited a t\<close>: the events \<open>a\<close> end with a wait that began with a clock reading
  \<open>st\<close> right after a click (the last \<^verbatim>\<open>delayMicroseconds(128)\<close>), saw nothing but
  clock readings and samples since, and for which the reading \<open>t\<close> that follows \<open>a\<close>
  makes \<^verbatim>\<open>t - st < interval\<close> false. \<open>paced es\<close>: wherever in \<open>es\<close> a pin write comes
  directly after a clock reading \<open>t\<close>, the events before that reading have
  \<open>waited\<close>. \<open>no_mw\<close> says that no write comes directly after a clock reading at all.
\<close>

definition waited :: "event list \<Rightarrow> ulong \<Rightarrow> bool" where
  "waited a t =
     (\<exists>a' st mid. a = a' @ DelayUs 128 # Millis st # mid \<and> list_all quiet mid
        \<and> \<not> t - st < interval)"

definition paced :: "event list \<Rightarrow> bool" where
  "paced es = (\<forall>a t q v c. es = a @ Millis t # Write q v # c \<longrightarrow> waited a t)"

fun no_mw :: "event list \<Rightarrow> bool" where
  "no_mw (Millis t # Write q v # es) = False"
| "no_mw (e # es) = no_mw es"
| "no_mw [] = True"

subsection \<open>Boards to run the sketch on\<close>

text \<open>
  On \<open>released_board\<close> every output starts HIGH, no button is pressed and the clock
  stands still. On \<open>left_held_board\<close> the left button is held, every output starts LOW,
  and the clock jumps 500 ms once, then stands still; \<open>right_held_board\<close> is the same
  with the right button. On \<open>hazards_held_board\<close> both buttons are held and every clock
  reading is 250 ms after the one before. On \<open>hazards_released_board\<close> both buttons are
  held for the first sample and released from the second on, the clock standing still.
  On \<open>left_walk_board\<close> and \<open>right_walk_board\<close> one button is held, every output
  starts LOW and every clock reading is 250 ms after the one before.
\<close>

definition released_board :: world where
  "released_board =
     \<lparr>port = (\<lambda>p. True), pin_in = (\<lambda>k p. False), clock = (\<lambda>k. 0),
      reads = 0, ticks = 0, log = []\<rparr>"

definition left_held_board :: world where
  "left_held_board =
     \<lparr>port = (\<lambda>p. False), pin_in = (\<lambda>k p. p = leftButtonPin),
      clock = (\<lambda>k. if k = 0 then 0 else 500),
      reads = 0, ticks = 0, log = []\<rparr>"

definition right_held_board :: world where
  "right_held_board = left_held_board\<lparr>pin_in := (\<lambda>k p. p = rightButtonPin)\<rparr>"

definition left_walk_board :: world where
  "left_walk_board =
     \<lparr>port = (\<lambda>p. False), pin_in = (\<lambda>k p. p = leftButtonPin), clock = (\<lambda>k. 250 * of_nat k),
      reads = 0, ticks = 0, log = []\<rparr>"

definition right_walk_board :: world where
  "right_walk_board = left_walk_board\<lparr>pin_in := (\<lambda>k p. p = rightButtonPin)\<rparr>"

definition hazards_held_board :: world where
  "hazards_held_board =
     \<lparr>port = (\<lambda>p. False), pin_in = (\<lambda>k p. True), clock = (\<lambda>k. 250 * of_nat k),
      reads = 0, ticks = 0, log = []\<rparr>"

definition hazards_released_board :: world where
  "hazards_released_board =
     \<lparr>port = (\<lambda>p. False), pin_in = (\<lambda>k p. k < 2), clock = (\<lambda>k. 0),
      reads = 0, ticks = 0, log = []\<rparr>"

subsection \<open>Runs with the buttons held and the clock advancing\<close>

text \<open>
  What the board must answer for a wait to run its course, and what the sketch then
  does, written from the board's answers alone. \<open>mode_read p r\<close> is the mode a sample
  returns that starts at reading number \<open>r\<close>. \<open>runs_out c p m st t r k\<close>: a wait with
  start time \<open>st\<close>, whose first clock reading is number \<open>t\<close> and whose first sample
  starts at reading \<open>r\<close>, finds the interval unfinished and the mode \<open>m\<close> selected
  exactly \<open>k\<close> times, and the interval over at the next clock reading. \<open>polls\<close> are
  the events of such a wait.
\<close>

definition mode_read :: "(nat \<Rightarrow> byte \<Rightarrow> bool) \<Rightarrow> nat \<Rightarrow> blinkerstate" where
  "mode_read p r = truth_table (p r leftButtonPin) (p (Suc r) rightButtonPin)"

fun polls :: "(nat \<Rightarrow> ulong) \<Rightarrow> (nat \<Rightarrow> byte \<Rightarrow> bool) \<Rightarrow> nat \<Rightarrow> nat \<Rightarrow> nat \<Rightarrow> event list" where
  "polls c p t r 0 = [Millis (c t)]"
| "polls c p t r (Suc k) =
     [Millis (c t), Read leftButtonPin (p r leftButtonPin),
      Read rightButtonPin (p (Suc r) rightButtonPin), DelayMs 1, Sampled (mode_read p r)]
     @ polls c p (Suc t) (Suc (Suc r)) k"

fun runs_out ::
  "(nat \<Rightarrow> ulong) \<Rightarrow> (nat \<Rightarrow> byte \<Rightarrow> bool) \<Rightarrow> blinkerstate \<Rightarrow> ulong \<Rightarrow> nat \<Rightarrow> nat \<Rightarrow> nat \<Rightarrow> bool" where
  "runs_out c p m st t r 0 = (\<not> c t - st < interval)"
| "runs_out c p m st t r (Suc k) =
     (c t - st < interval \<and> mode_read p r = m \<and> runs_out c p m st (Suc t) (Suc (Suc r)) k)"

text \<open>
  The events of one pass of the hazard loop whose waits poll \<open>k1\<close> and \<open>k2\<close> times,
  and the board after it.
\<close>

definition hazard_pass_events ::
  "(nat \<Rightarrow> ulong) \<Rightarrow> (nat \<Rightarrow> byte \<Rightarrow> bool) \<Rightarrow> nat \<Rightarrow> nat \<Rightarrow> nat \<Rightarrow> nat \<Rightarrow> event list" where
  "hazard_pass_events c p t r k1 k2 =
     blank_events @ click_events @ Millis (c t) # polls c p (Suc t) r k1
     @ lights_on_events @ click_events
     @ Millis (c (t + k1 + 2)) # polls c p (t + k1 + 3) (r + 2 * k1) k2"

definition after_hazard_pass :: "world \<Rightarrow> nat \<Rightarrow> nat \<Rightarrow> world" where
  "after_hazard_pass w k1 k2 =
     w\<lparr>port := port_after (port w)
                 (blank_events @ click_events @ lights_on_events @ click_events),
       reads := reads w + 2 * k1 + 2 * k2, ticks := ticks w + k1 + k2 + 4,
       log := log w @ hazard_pass_events (clock w) (pin_in w) (ticks w) (reads w) k1 k2\<rparr>"

text \<open>
  \<open>at_counted P c f es\<close> replays \<open>es\<close> from the port \<open>f\<close>, counting from \<open>c\<close> the
  signal outputs written HIGH, and asks for \<open>P\<close> of the count and the port each time a
  sample is taken. \<open>slot_lit pins other c f\<close>: after \<open>c\<close> activations the port \<open>f\<close>
  has exactly the slots up to the one lit last HIGH, that is slots 0 to
  \<open>(c - 1) mod num_signal_lights\<close>, and the other bank LOW.
\<close>

fun at_counted ::
  "(nat \<Rightarrow> (byte \<Rightarrow> bool) \<Rightarrow> bool) \<Rightarrow> nat \<Rightarrow> (byte \<Rightarrow> bool) \<Rightarrow> event list \<Rightarrow> bool" where
  "at_counted P c f [] = True"
| "at_counted P c f (Sampled s # es) = (P c f \<and> at_counted P c f es)"
| "at_counted P c f (e # es) = at_counted P (c + length (lit_by e)) (apply_event f e) es"

definition slot_lit :: "byte list \<Rightarrow> byte list \<Rightarrow> nat \<Rightarrow> (byte \<Rightarrow> bool) \<Rightarrow> bool" where
  "slot_lit pins other c f =
     (0 < c \<and> lit_upto pins other (Suc ((c - 1) mod num_signal_lights)) f)"

text \<open>
  A pass of the slot loop from slot \<open>i\<close> whose waits poll \<open>ks\<close> times: \<open>on_time\<close> is
  what the board must answer for it, \<open>fill_events\<close> are its events, and \<open>after_fill\<close>
  is the board after the blanking pass and a whole pass from slot 0.
\<close>

fun fill_events ::
  "byte list \<Rightarrow> (nat \<Rightarrow> ulong) \<Rightarrow> (nat \<Rightarrow> byte \<Rightarrow> bool) \<Rightarrow> nat \<Rightarrow> nat \<Rightarrow> nat \<Rightarrow> nat list
     \<Rightarrow> event list" where
  "fill_events pins c p t r i [] = []"
| "fill_events pins c p t r i (k # ks) =
     slot_events (pins ! i) (c t) @ polls c p (Suc t) r k
     @ fill_events pins c p (Suc (Suc (t + k))) (r + 2 * k) (Suc i) ks"

fun on_time ::
  "(nat \<Rightarrow> ulong) \<Rightarrow> (nat \<Rightarrow> byte \<Rightarrow> bool) \<Rightarrow> blinkerstate \<Rightarrow> nat \<Rightarrow> nat \<Rightarrow> nat list \<Rightarrow> bool" where
  "on_time c p m t r [] = True"
| "on_time c p m t r (k # ks) =
     (runs_out c p m (c t) (Suc t) r k \<and> on_time c p m (Suc (Suc (t + k))) (r + 2 * k) ks)"

definition after_fill :: "byte list \<Rightarrow> world \<Rightarrow> nat list \<Rightarrow> world" where
  "after_fill pins w ks =
     w\<lparr>port := port_after (port w)
                 (blank_events @ fill_events pins (clock w) (pin_in w) (ticks w) (reads w) 0 ks),
       reads := reads w + 2 * sum_list ks,
       ticks := ticks w + sum_list ks + 2 * length ks,
       log := log w @ blank_events
               @ fill_events pins (clock w) (pin_in w) (ticks w) (reads w) 0 ks\<rparr>"

text \<open>
  \<open>signal_writes es\<close>: the writes in \<open>es\<close> to pins other than the buzzer's, in order.
  \<open>cycle_writes pins\<close>: the signal writes of one whole cycle, the eight LOW writes of
  the blanking pass and then one HIGH write for each slot of the bank, in slot order.
\<close>

fun signal_write :: "event \<Rightarrow> event list" where
  "signal_write (Write p v) = (if p \<noteq> buzzerPin then [Write p v] else [])"
| "signal_write _ = []"

definition signal_writes :: "event list \<Rightarrow> event list" where
  "signal_writes es = concat (map signal_write es)"

definition cycle_writes :: "byte list \<Rightarrow> event list" where
  "cycle_writes pins = blank_events @ map (\<lambda>p. Write p True) pins"

section \<open>Basic facts about the log\<close>

lemma upt_4: "[0..<4::nat] = [0, 1, 2, 3]"
  by (simp add: upt_conv_Cons)

lemma upt_8: "[0..<8::nat] = [0, 1, 2, 3, 4, 5, 6, 7]"
  by (simp add: upt_conv_Cons)

lemma events_since_append: "log w' = log w @ es \<Longrightarrow> events_since w w' = es"
  by (simp add: events_since_def)

lemma port_after_append [simp]: "port_after f (es @ fs) = port_after (port_after f es) fs"
  by (simp add: port_after_def)

lemma port_after_Nil [simp]: "port_after f [] = f"
  by (simp add: port_after_def)

lemma port_after_Cons [simp]: "port_after f (e # es) = port_after (apply_event f e) es"
  by (simp add: port_after_def)

lemma buzzerClick_log: "log (buzzerClick w) = log w @ click_events"
  by (simp add: buzzerClick_def click_events_def digitalWrite_def delayMicroseconds_def
      upt_8 numeral_eq_Suc)

lemma buzzerClick_port: "port (buzzerClick w) = (port w)(buzzerPin := False)"
  by (simp add: buzzerClick_def digitalWrite_def delayMicroseconds_def upt_8)

lemma disableSignals_log: "log (disableSignals w) = log w @ blank_events"
  by (simp add: disableSignals_def blank_events_def digitalWrite_def num_signal_lights_def
      upt_4)

lemma disableSignals_port: "port (disableSignals w) = port_after (port w) blank_events"
  by (simp add: disableSignals_def blank_events_def digitalWrite_def num_signal_lights_def
      upt_4)

lemma readButtonStates_result:
  "fst (readButtonStates w) =
     truth_table (pin_in w (reads w) leftButtonPin) (pin_in w (Suc (reads w)) rightButtonPin)"
  by (simp add: readButtonStates_def digitalRead_def delay_def)

lemma readButtonStates_log:
  "log (snd (readButtonStates w)) =
     log w @ [Read leftButtonPin (pin_in w (reads w) leftButtonPin),
              Read rightButtonPin (pin_in w (Suc (reads w)) rightButtonPin),
              DelayMs 1, Sampled (fst (readButtonStates w))]"
  by (simp add: readButtonStates_def digitalRead_def delay_def)

lemma readButtonStates_port: "port (snd (readButtonStates w)) = port w"
  by (simp add: readButtonStates_def digitalRead_def delay_def)

subsection \<open>The wait loop\<close>

declare left_for.simps [simp del] right_for.simps [simp del] chase_for.simps [simp del]

lemma left_wait_eq: "left_wait n st f w = wait_for left n st f w"
  by (induction n arbitrary: f w) (auto split: prod.splits)
lemma right_wait_eq: "right_wait n st f w = wait_for right n st f w"
  by (induction n arbitrary: f w) (auto split: prod.splits)
lemma hazard_wait_eq: "hazard_wait n st f w = wait_for hazards n st f w"
  by (induction n arbitrary: f w) (auto split: prod.splits)

lemma millis_log: "millis w = (t, w1) \<Longrightarrow> log w1 = log w @ [Millis t] \<and> port w1 = port w"
  by (auto simp: millis_def)

lemma sample_log:
  "readButtonStates w = (s, w2) \<Longrightarrow>
     port w2 = port w \<and> (\<exists>l r. log w2 = log w @ [Read leftButtonPin l, Read rightButtonPin r, DelayMs 1, Sampled s])"
  using readButtonStates_log[of w] readButtonStates_port[of w] by auto

lemma cancelled_prepend: "cancelled m es \<Longrightarrow> list_all (keeps m) xs \<Longrightarrow> cancelled m (xs @ es)"
proof -
  assume "cancelled m es" and xs: "list_all (keeps m) xs"
  then obtain pre s t where e: "es = pre @ [Sampled s, Millis t]" "s \<noteq> m" "list_all (keeps m) pre"
    unfolding cancelled_def by blast
  have "xs @ es = (xs @ pre) @ [Sampled s, Millis t]" using e(1) by simp
  moreover have "list_all (keeps m) (xs @ pre)" using xs e(3) by simp
  ultimately show ?thesis unfolding cancelled_def using e(2) by blast
qed

lemma timed_out_prepend: "timed_out st es \<Longrightarrow> timed_out st (xs @ es)"
  by (auto simp: timed_out_def)

lemma wait_for_run:
  "wait_for m n st flag w = (r, w') \<Longrightarrow>
     \<exists>es. log w' = log w @ es \<and> port w' = port w \<and> list_all quiet es \<and> wait_shape m st flag r es"
proof (induction n arbitrary: flag w)
  case 0
  then show ?case
    by (auto simp: wait_shape_def timed_out_def millis_def split: if_splits)
next
  case (Suc n)
  obtain t w1 where m: "millis w = (t, w1)" by force
  note ml = millis_log [OF m]
  show ?case
  proof (cases "t - st < interval \<and> flag")
    case False
    with Suc.prems m ml show ?thesis
      by (auto simp: wait_shape_def timed_out_def)
  next
    case True
    obtain s w2 where rb: "readButtonStates w1 = (s, w2)" by force
    from sample_log [OF rb] obtain l r' where
      p2: "port w2 = port w1" and
      l2: "log w2 = log w1 @ [Read leftButtonPin l, Read rightButtonPin r', DelayMs 1, Sampled s]"
      by blast
    from Suc.prems m True rb have rec: "wait_for m n st (s = m) w2 = (r, w')" by simp
    from Suc.IH [OF rec] obtain es where
      es: "log w' = log w2 @ es" "port w' = port w2" "list_all quiet es" "wait_shape m st (s = m) r es"
      by blast
    let ?pre = "[Millis t, Read leftButtonPin l, Read rightButtonPin r', DelayMs 1, Sampled s]"
    have lg: "log w' = log w @ ?pre @ es" using es(1) l2 ml by simp
    have q: "list_all quiet (?pre @ es)" using es(3) by simp
    have sh: "wait_shape m st flag r (?pre @ es)"
    proof (cases "s = m")
      case True
      note tf = \<open>t - st < interval \<and> flag\<close>
      show ?thesis
      proof (cases r)
        case None
        with True es(4) tf show ?thesis by (simp add: wait_shape_def)
      next
        case (Some b)
        show ?thesis
        proof (cases b)
          case True
          with Some \<open>s = m\<close> es(4) tf have "timed_out st es" "list_all (keeps m) es"
            by (auto simp: wait_shape_def)
          with True Some \<open>s = m\<close> tf timed_out_prepend [of st es ?pre] show ?thesis
            unfolding wait_shape_def by simp
        next
          case False
          with Some \<open>s = m\<close> es(4) have "cancelled m es" by (simp add: wait_shape_def)
          from cancelled_prepend [OF this, of ?pre] \<open>s = m\<close> have "cancelled m (?pre @ es)" by simp
          with False Some tf show ?thesis by (simp add: wait_shape_def)
        qed
      qed
    next
      case False
      with es(4) obtain t' where "r = Some False" "es = [Millis t']"
        by (auto simp: wait_shape_def split: option.splits bool.splits)
      with False \<open>t - st < interval \<and> flag\<close> show ?thesis
        by (auto simp: wait_shape_def cancelled_def
            intro!: exI[of _ "[Millis t, Read leftButtonPin l, Read rightButtonPin r', DelayMs 1]"])
    qed
    have "port w' = port w" using es(2) p2 ml by simp
    with lg q sh show ?thesis by (intro exI [of _ "?pre @ es"] conjI)
  qed
qed

lemma wait_for_facts:
  assumes "wait_for m n st flag w = (r, w')"
  shows "log w' = log w @ events_since w w'"
    "port w' = port w" "list_all quiet (events_since w w')"
    "wait_shape m st flag r (events_since w w')"
proof -
  from wait_for_run [OF assms] obtain es where
    es: "log w' = log w @ es" "port w' = port w" "list_all quiet es" "wait_shape m st flag r es"
    by blast
  have "events_since w w' = es" using es(1) by (simp add: events_since_def)
  with es show "log w' = log w @ events_since w w'"
    "port w' = port w" "list_all quiet (events_since w w')"
    "wait_shape m st flag r (events_since w w')" by simp_all
qed

subsection \<open>The slot loop\<close>

lemma events_since_self [simp]: "events_since w w = []"
  by (simp add: events_since_def)

lemma quiet_port_after: "list_all quiet es \<Longrightarrow> port_after f es = f"
proof (induction es)
  case Nil
  show ?case by simp
next
  case (Cons e es)
  then show ?case by (cases e) simp_all
qed

lemma port_after_click: "port_after f click_events = f(buzzerPin := False)"
  by (simp add: click_events_def numeral_eq_Suc)

lemma port_after_slot: "port_after f (slot_events p st) = f(p := True, buzzerPin := False)"
  by (simp add: slot_events_def port_after_click)

lemma slot_prelude:
  assumes "millis (buzzerClick (digitalWrite p True w)) = (st, w1)"
  shows "log w1 = log w @ slot_events p st"
    and "port w1 = (port w)(p := True, buzzerPin := False)"
  using assms buzzerClick_log [of "digitalWrite p True w"]
  by (auto simp: millis_def slot_events_def digitalWrite_def buzzerClick_port)

lemma keeps_click: "list_all (keeps m) click_events"
  by (simp add: click_events_def numeral_eq_Suc)

lemma keeps_slot: "list_all (keeps m) (slot_events p st)"
  by (simp add: slot_events_def keeps_click)

lemma chase_for_stop:
  "\<not> (i < num_signal_lights \<and> flag) \<Longrightarrow> chase_for pins m n i flag w = (Some flag, w)"
  by (subst chase_for.simps) (simp only: if_False)

lemma chase_for_step:
  "i < num_signal_lights \<and> flag \<Longrightarrow>
   millis (buzzerClick (digitalWrite (pins ! i) True w)) = (st, w1) \<Longrightarrow>
   wait_for m n st flag w1 = (rw, w2) \<Longrightarrow>
   chase_for pins m n i flag w =
     (case rw of None \<Rightarrow> (None, w2) | Some f \<Rightarrow> chase_for pins m n (Suc i) f w2)"
  by (subst chase_for.simps) (simp split: option.splits)

lemma chase_for_run:
  "chase_for pins m n i flag w = (r, w') \<Longrightarrow>
     log w' = log w @ events_since w w' \<and> port w' = port_after (port w) (events_since w w')
     \<and> for_shape m flag r (events_since w w')"
proof (induction pins m n i flag w rule: chase_for.induct)
  case (1 pins m n i flag w)
  show ?case
  proof (cases "i < num_signal_lights \<and> flag")
    case False
    with "1.prems" have "w' = w" "r = Some flag"
      by (simp_all add: chase_for_stop)
    with False show ?thesis by (auto simp: for_shape_def)
  next
    case True
    obtain st w1 where pre: "millis (buzzerClick (digitalWrite (pins ! i) True w)) = (st, w1)"
      by force
    obtain rw w2 where wt: "wait_for m n st flag w1 = (rw, w2)" by force
    note sp = slot_prelude [OF pre]
    note wl = wait_for_facts(1) [OF wt]
    note wf = wait_for_facts(2-4) [OF wt]
    show ?thesis
    proof (cases rw)
      case None
      with "1.prems" chase_for_step [OF True pre wt] have "w' = w2" "r = None"
        by simp_all
      moreover have "events_since w w2 = slot_events (pins ! i) st @ events_since w1 w2"
        using sp(1) wl by (intro events_since_append) simp
      ultimately show ?thesis
        using sp wl wf None True
        by (simp add: for_shape_def wait_shape_def keeps_slot
            port_after_slot quiet_port_after)
    next
      case (Some f)
      with "1.prems" chase_for_step [OF True pre wt]
      have rec: "chase_for pins m n (Suc i) f w2 = (r, w')"
        by simp
      from "1.IH" [OF True pre [symmetric] wt [symmetric] Some rec]
      have ih: "log w' = log w2 @ events_since w2 w'"
               "port w' = port_after (port w2) (events_since w2 w')"
               "for_shape m f r (events_since w2 w')"
        by auto
      have l2: "log w2 = log w @ slot_events (pins ! i) st @ events_since w1 w2"
        using sp(1) wl by simp
      have es: "events_since w w' =
          (slot_events (pins ! i) st @ events_since w1 w2) @ events_since w2 w'"
      proof (rule events_since_append)
        show "log w' = log w @ (slot_events (pins ! i) st @ events_since w1 w2) @ events_since w2 w'"
          using l2 ih(1) by simp
      qed
      have p2: "port w2 = port_after (port w) (slot_events (pins ! i) st @ events_since w1 w2)"
        using sp(2) wf(1,2)
        by (simp add: port_after_slot quiet_port_after)
      have sh: "for_shape m flag r (events_since w w')"
      proof (cases f)
        case True
        with wf(3) Some have k: "list_all (keeps m) (events_since w1 w2)"
          by (simp add: wait_shape_def)
        have kk: "list_all (keeps m) (slot_events (pins ! i) st @ events_since w1 w2)"
          using k keeps_slot by simp
        show ?thesis
        proof (cases r)
          case None
          with ih(3) True kk \<open>i < num_signal_lights \<and> flag\<close> es show ?thesis
            by (simp add: for_shape_def)
        next
          case (Some b)
          show ?thesis
          proof (cases b)
            case True
            with Some ih(3) kk \<open>i < num_signal_lights \<and> flag\<close> es show ?thesis
              by (simp add: for_shape_def)
          next
            case False
            with Some ih(3) \<open>f\<close> have "cancelled m (events_since w2 w')"
              by (simp add: for_shape_def)
            from cancelled_prepend [OF this kk] False Some \<open>i < num_signal_lights \<and> flag\<close> es
            show ?thesis by (simp add: for_shape_def)
          qed
        qed
      next
        case False
        with ih(3) have r: "r = Some False" "events_since w2 w' = []"
          by (auto simp: for_shape_def split: option.splits bool.splits)
        from False Some wf(3) \<open>i < num_signal_lights \<and> flag\<close>
        have "cancelled m (events_since w1 w2)" by (simp add: wait_shape_def)
        from cancelled_prepend [OF this keeps_slot] r es \<open>i < num_signal_lights \<and> flag\<close>
        show ?thesis by (simp add: for_shape_def)
      qed
      from es ih l2 p2 sh show ?thesis by simp
    qed
  qed
qed

subsection \<open>The functions of the sketch are instances\<close>

lemma left_for_eq: "left_for n i f w = chase_for leftSignalPins left n i f w"
proof (induction n i f w rule: left_for.induct)
  case (1 n i left_turn w)
  show ?case
  proof (cases "i < num_signal_lights \<and> left_turn")
    case False
    then show ?thesis by (subst left_for.simps, subst chase_for.simps) (simp only: if_False)
  next
    case True
    obtain st w1 where pre:
      "millis (buzzerClick (digitalWrite (leftSignalPins ! i) True w)) = (st, w1)" by force
    obtain rw w2 where wt: "left_wait n st left_turn w1 = (rw, w2)" by force
    show ?thesis
    proof (cases rw)
      case None
      with True pre wt show ?thesis
        by (subst left_for.simps, subst chase_for.simps) (simp add: left_wait_eq)
    next
      case (Some lt)
      from "1.IH" [OF True pre [symmetric] wt [symmetric] Some]
      have "left_for n (Suc i) lt w2 = chase_for leftSignalPins left n (Suc i) lt w2" .
      with True pre wt Some show ?thesis
        by (subst left_for.simps, subst chase_for.simps) (simp add: left_wait_eq)
    qed
  qed
qed

lemma right_for_eq: "right_for n i f w = chase_for rightSignalPins right n i f w"
proof (induction n i f w rule: right_for.induct)
  case (1 n i right_turn w)
  show ?case
  proof (cases "i < num_signal_lights \<and> right_turn")
    case False
    then show ?thesis by (subst right_for.simps, subst chase_for.simps) (simp only: if_False)
  next
    case True
    obtain st w1 where pre:
      "millis (buzzerClick (digitalWrite (rightSignalPins ! i) True w)) = (st, w1)" by force
    obtain rw w2 where wt: "right_wait n st right_turn w1 = (rw, w2)" by force
    show ?thesis
    proof (cases rw)
      case None
      with True pre wt show ?thesis
        by (subst right_for.simps, subst chase_for.simps) (simp add: right_wait_eq)
    next
      case (Some rt)
      from "1.IH" [OF True pre [symmetric] wt [symmetric] Some]
      have "right_for n (Suc i) rt w2 = chase_for rightSignalPins right n (Suc i) rt w2" .
      with True pre wt Some show ?thesis
        by (subst right_for.simps, subst chase_for.simps) (simp add: right_wait_eq)
    qed
  qed
qed

lemma left_while_eq: "left_while n f w = chase_while leftSignalPins left n f w"
  by (induction n arbitrary: f w) (simp_all add: left_for_eq split: prod.splits option.splits)

lemma right_while_eq: "right_while n f w = chase_while rightSignalPins right n f w"
  by (induction n arbitrary: f w) (simp_all add: right_for_eq split: prod.splits option.splits)

subsection \<open>The cycle loop\<close>

lemma keeps_blank: "list_all (keeps m) blank_events"
  by (simp add: blank_events_def num_signal_lights_def upt_4)

lemma chase_while_run:
  "chase_while pins m n flag w = (r, w') \<Longrightarrow>
     log w' = log w @ events_since w w' \<and> port w' = port_after (port w) (events_since w w')
     \<and> while_shape m flag r (events_since w w')"
proof (induction n arbitrary: flag w)
  case 0
  then show ?case by (auto simp: while_shape_def split: if_splits)
next
  case (Suc n)
  show ?case
  proof (cases flag)
    case False
    with Suc.prems show ?thesis by (auto simp: while_shape_def)
  next
    case True
    obtain rf w1 where f: "chase_for pins m n 0 flag (disableSignals w) = (rf, w1)" by force
    from chase_for_run [OF f] have
      fl: "log w1 = log (disableSignals w) @ events_since (disableSignals w) w1" and
      fp: "port w1 = port_after (port (disableSignals w)) (events_since (disableSignals w) w1)" and
      fs: "for_shape m flag rf (events_since (disableSignals w) w1)"
      by auto
    let ?fe = "events_since (disableSignals w) w1"
    have l1: "log w1 = log w @ blank_events @ ?fe"
      using fl by (simp add: disableSignals_log)
    have p1: "port w1 = port_after (port w) (blank_events @ ?fe)"
      using fp by (simp add: disableSignals_port)
    show ?thesis
    proof (cases rf)
      case None
      with Suc.prems True f have "w' = w1" "r = None" by auto
      moreover have "events_since w w1 = blank_events @ ?fe"
        using l1 by (rule events_since_append)
      ultimately show ?thesis using l1 p1 fs None True
        by (simp add: while_shape_def for_shape_def keeps_blank)
    next
      case (Some f')
      with Suc.prems True f have rec: "chase_while pins m n f' w1 = (r, w')" by auto
      from Suc.IH [OF rec] have
        ih: "log w' = log w1 @ events_since w1 w'"
            "port w' = port_after (port w1) (events_since w1 w')"
            "while_shape m f' r (events_since w1 w')"
        by auto
      have es: "events_since w w' = (blank_events @ ?fe) @ events_since w1 w'"
      proof (rule events_since_append)
        show "log w' = log w @ (blank_events @ ?fe) @ events_since w1 w'"
          using l1 ih(1) by simp
      qed
      have sh: "while_shape m flag r (events_since w w')"
      proof (cases f')
        case True
        with fs Some have "list_all (keeps m) ?fe" by (simp add: for_shape_def)
        then have kk: "list_all (keeps m) (blank_events @ ?fe)" by (simp add: keeps_blank)
        show ?thesis
        proof (cases r)
          case None
          with ih(3) True kk \<open>flag\<close> es show ?thesis by (simp add: while_shape_def)
        next
          case (Some u)
          with ih(3) True have "cancelled m (events_since w1 w')" by (simp add: while_shape_def)
          from cancelled_prepend [OF this kk] Some \<open>flag\<close> es show ?thesis
            by (simp add: while_shape_def)
        qed
      next
        case False
        with ih(3) have r: "r = Some ()" "events_since w1 w' = []"
          by (auto simp: while_shape_def split: option.splits)
        from False Some fs \<open>flag\<close> have "cancelled m ?fe" by (simp add: for_shape_def)
        from cancelled_prepend [OF this keeps_blank] r es \<open>flag\<close> show ?thesis
          by (simp add: while_shape_def)
      qed
      from es ih l1 p1 sh show ?thesis by simp
    qed
  qed
qed

subsection \<open>The cancelling sample is the last one\<close>

lemma cancelled_unique:
  "list_all (keeps m) pre' \<Longrightarrow> pre' @ [Sampled s', Millis t'] = pre @ Sampled s # post \<Longrightarrow>
     s \<noteq> m \<Longrightarrow> pre = pre' \<and> s = s' \<and> post = [Millis t']"
proof (induction pre' arbitrary: pre)
  case Nil
  then show ?case by (cases pre; cases "tl pre") auto
next
  case (Cons a pre')
  then show ?case by (cases pre) auto
qed

lemma keeps_no_cancel:
  "list_all (keeps m) es \<Longrightarrow> es = pre @ Sampled s # post \<Longrightarrow> s = m"
  by auto

subsection \<open>The outputs lit when a sample is taken\<close>

lemma bank_left: "bank leftSignalPins rightSignalPins"
  by (simp add: bank_def leftSignalPins_def rightSignalPins_def num_signal_lights_def
      buzzerPin_def A0_def)

lemma bank_right: "bank rightSignalPins leftSignalPins"
  by (simp add: bank_def leftSignalPins_def rightSignalPins_def num_signal_lights_def
      buzzerPin_def A0_def)

lemma at_samples_append:
  "at_samples P f (es @ fs) = (at_samples P f es \<and> at_samples P (port_after f es) fs)"
proof (induction es arbitrary: f)
  case Nil
  show ?case by simp
next
  case (Cons e es)
  show ?case
  proof (cases e)
    case (Sampled s)
    then show ?thesis using Cons.IH [of f] by simp
  next
    case (Write p v)
    have "at_samples P f ((e # es) @ fs) = at_samples P (f(p := v)) (es @ fs)"
      unfolding Write by simp
    also have "\<dots> = (at_samples P (f(p := v)) es \<and> at_samples P (port_after (f(p := v)) es) fs)"
      by (rule Cons.IH)
    also have "\<dots> = (at_samples P f (e # es) \<and> at_samples P (port_after f (e # es)) fs)"
      unfolding Write by simp
    finally show ?thesis .
  qed (use Cons.IH [of f] in simp_all)
qed

lemma at_samples_quiet: "list_all quiet es \<Longrightarrow> P f \<Longrightarrow> at_samples P f es"
proof (induction es)
  case Nil
  show ?case by simp
next
  case (Cons e es)
  then show ?case by (cases e) simp_all
qed

lemma at_samples_decomp:
  "at_samples P f es \<Longrightarrow> es = pre @ Sampled s # post \<Longrightarrow> P (port_after f pre)"
  by (simp add: at_samples_append)

lemma at_samples_click: "at_samples P f click_events"
  by (simp add: click_events_def numeral_eq_Suc)

lemma at_samples_slot: "at_samples P f (slot_events p st)"
  by (simp add: slot_events_def at_samples_append at_samples_click)

lemma at_samples_blank: "at_samples P f blank_events"
  by (simp add: blank_events_def num_signal_lights_def upt_4)

lemma lit_upto_Suc:
  assumes "bank pins other" "lit_upto pins other i f" "i < num_signal_lights"
  shows "lit_upto pins other (Suc i) (f(pins ! i := True, buzzerPin := False))"
proof -
  from assms(1) have len: "length pins = num_signal_lights" and d: "distinct pins"
    and b: "buzzerPin \<notin> set pins" and o: "set pins \<inter> set other = {}"
    by (simp_all add: bank_def)
  let ?g = "f(pins ! i := True, buzzerPin := False)"
  have "map ?g pins = map (\<lambda>j. j < Suc i) [0..<length pins]"
  proof (rule nth_equalityI)
    show "length (map ?g pins) = length (map (\<lambda>j. j < Suc i) [0..<length pins])" by simp
  next
    fix j assume "j < length (map ?g pins)"
    then have j: "j < length pins" by simp
    then have nb: "pins ! j \<noteq> buzzerPin" using b by (metis nth_mem)
    from assms(2) j have fj: "f (pins ! j) = (j < i)"
      unfolding lit_upto_def by (metis (no_types, lifting) add_0 length_map nth_map nth_upt length_upt minus_nat.diff_0)
    show "map ?g pins ! j = map (\<lambda>j. j < Suc i) [0..<length pins] ! j"
    proof (cases "j = i")
      case True
      with j nb show ?thesis by simp
    next
      case False
      with d j assms(3) len have "pins ! j \<noteq> pins ! i" by (simp add: nth_eq_iff_index_eq)
      with j nb fj False show ?thesis by auto
    qed
  qed
  moreover have "list_all (\<lambda>q. \<not> ?g q) other"
  proof -
    have "pins ! i \<in> set pins" using assms(3) len by simp
    with o have "pins ! i \<notin> set other" by blast
    with assms(2) show ?thesis
      unfolding lit_upto_def list_all_iff by auto
  qed
  ultimately show ?thesis by (simp add: lit_upto_def)
qed

lemma disableSignals_dark:
  "p \<in> set leftSignalPins \<union> set rightSignalPins \<Longrightarrow> \<not> port (disableSignals w) p"
  by (auto simp add: disableSignals_def digitalWrite_def num_signal_lights_def
      upt_4 leftSignalPins_def rightSignalPins_def)

lemma lit_upto_blank:
  assumes "bank pins other"
  shows "lit_upto pins other 0 (port (disableSignals w))"
proof -
  from assms have sub: "set pins \<union> set other \<subseteq> set leftSignalPins \<union> set rightSignalPins"
    by (simp add: bank_def)
  have "\<forall>p \<in> set pins \<union> set other. \<not> port (disableSignals w) p"
    using sub disableSignals_dark by blast
  then show ?thesis
    unfolding lit_upto_def list_all_iff
    by (auto intro!: nth_equalityI)
qed

lemma chase_for_lit:
  "chase_for pins m n i flag w = (r, w') \<Longrightarrow> bank pins other \<Longrightarrow>
   lit_upto pins other i (port w) \<Longrightarrow>
   at_samples (filling pins other) (port w) (events_since w w')"
proof (induction pins m n i flag w rule: chase_for.induct)
  case (1 pins m n i flag w)
  show ?case
  proof (cases "i < num_signal_lights \<and> flag")
    case False
    with "1.prems"(1) have "w' = w" by (simp add: chase_for_stop)
    then show ?thesis by simp
  next
    case True
    obtain st w1 where pre: "millis (buzzerClick (digitalWrite (pins ! i) True w)) = (st, w1)"
      by force
    obtain rw w2 where wt: "wait_for m n st flag w1 = (rw, w2)" by force
    note sp = slot_prelude [OF pre]
    note wf = wait_for_facts [OF wt]
    let ?we = "events_since w1 w2"
    from "1.prems"(2,3) True
    have lit1: "lit_upto pins other (Suc i) (port w1)"
      unfolding sp(2) by (intro lit_upto_Suc) simp_all
    from True have "filling pins other (port w1)"
      unfolding filling_def using lit1 by (intro exI [of _ "Suc i"]) simp
    then have aw: "at_samples (filling pins other) (port w1) ?we"
      using wf(3) by (intro at_samples_quiet)
    have l2: "log w2 = log w @ slot_events (pins ! i) st @ ?we"
      using sp(1) wf(1) by simp
    have p1: "port_after (port w) (slot_events (pins ! i) st) = port w1"
      by (simp add: port_after_slot sp(2))
    show ?thesis
    proof (cases rw)
      case None
      with "1.prems"(1) chase_for_step [OF True pre wt] have "w' = w2" by simp
      moreover have "events_since w w2 = slot_events (pins ! i) st @ ?we"
        using l2 by (rule events_since_append)
      ultimately show ?thesis using aw p1
        by (simp add: at_samples_append at_samples_slot)
    next
      case (Some f)
      with "1.prems"(1) chase_for_step [OF True pre wt]
      have rec: "chase_for pins m n (Suc i) f w2 = (r, w')" by simp
      have lit2: "lit_upto pins other (Suc i) (port w2)" using lit1 wf(2) by simp
      from "1.IH" [OF True pre [symmetric] wt [symmetric] Some rec "1.prems"(2) lit2]
      have ih: "at_samples (filling pins other) (port w2) (events_since w2 w')" .
      from chase_for_run [OF rec] have lr: "log w' = log w2 @ events_since w2 w'" by simp
      have es: "events_since w w' = slot_events (pins ! i) st @ ?we @ events_since w2 w'"
      proof (rule events_since_append)
        show "log w' = log w @ slot_events (pins ! i) st @ ?we @ events_since w2 w'"
          using l2 lr by simp
      qed
      have "port_after (port w1) ?we = port w2"
        using wf(2,3) by (simp add: quiet_port_after)
      with es aw ih p1 show ?thesis
        by (simp add: at_samples_append at_samples_slot)
    qed
  qed
qed

lemma chase_while_lit:
  "chase_while pins m n flag w = (r, w') \<Longrightarrow> bank pins other \<Longrightarrow>
   at_samples (filling pins other) (port w) (events_since w w')"
proof (induction n arbitrary: flag w)
  case 0
  then have "w' = w" by (simp split: if_splits)
  then show ?case by simp
next
  case (Suc n)
  show ?case
  proof (cases flag)
    case False
    with Suc.prems(1) have "w' = w" by simp
    then show ?thesis by simp
  next
    case True
    obtain rf w1 where f: "chase_for pins m n 0 flag (disableSignals w) = (rf, w1)" by force
    let ?fe = "events_since (disableSignals w) w1"
    from chase_for_run [OF f] have
      fl: "log w1 = log (disableSignals w) @ ?fe" and
      fp: "port w1 = port_after (port (disableSignals w)) ?fe"
      by auto
    have af: "at_samples (filling pins other) (port (disableSignals w)) ?fe"
      using f Suc.prems(2) lit_upto_blank [OF Suc.prems(2)] by (rule chase_for_lit)
    have l1: "log w1 = log w @ blank_events @ ?fe"
      using fl by (simp add: disableSignals_log)
    have ab: "at_samples (filling pins other) (port w) (blank_events @ ?fe)"
      using af by (simp add: at_samples_append at_samples_blank disableSignals_port)
    have p1: "port_after (port w) (blank_events @ ?fe) = port w1"
      using fp by (simp add: disableSignals_port)
    show ?thesis
    proof (cases rf)
      case None
      with Suc.prems(1) True f have "w' = w1" by auto
      moreover have "events_since w w1 = blank_events @ ?fe"
        using l1 by (rule events_since_append)
      ultimately show ?thesis using ab by simp
    next
      case (Some f')
      with Suc.prems(1) True f have rec: "chase_while pins m n f' w1 = (r, w')" by auto
      from Suc.IH [OF rec Suc.prems(2)]
      have ih: "at_samples (filling pins other) (port w1) (events_since w1 w')" .
      from chase_while_run [OF rec] have lr: "log w' = log w1 @ events_since w1 w'" by simp
      have es: "events_since w w' = (blank_events @ ?fe) @ events_since w1 w'"
      proof (rule events_since_append)
        show "log w' = log w @ (blank_events @ ?fe) @ events_since w1 w'"
          using l1 lr by simp
      qed
      show ?thesis
        unfolding es at_samples_append [of _ _ "blank_events @ ?fe"] p1
        using ab ih by simp
    qed
  qed
qed

subsection \<open>The order of activation\<close>

lemma activations_append [simp]: "activations (es @ fs) = activations es @ activations fs"
  by (simp add: activations_def)

lemma activations_Nil [simp]: "activations [] = []"
  by (simp add: activations_def)

lemma activations_click: "activations click_events = []"
  by (simp add: activations_def click_events_def numeral_eq_Suc)

lemma activations_blank: "activations blank_events = []"
  by (simp add: activations_def blank_events_def num_signal_lights_def upt_4)

lemma activations_quiet: "list_all quiet es \<Longrightarrow> activations es = []"
proof (induction es)
  case Nil
  show ?case by simp
next
  case (Cons e es)
  then show ?case by (cases e) (simp_all add: activations_def)
qed

lemma activations_slot: "p \<noteq> buzzerPin \<Longrightarrow> activations (slot_events p st) = [p]"
  using activations_click by (simp add: slot_events_def activations_def)

lemma chase_for_order:
  "chase_for pins m n i flag w = (r, w') \<Longrightarrow> bank pins other \<Longrightarrow>
   prefix (activations (events_since w w')) (drop i pins)
   \<and> (flag \<and> r = Some True \<longrightarrow> activations (events_since w w') = drop i pins)"
proof (induction pins m n i flag w rule: chase_for.induct)
  case (1 pins m n i flag w)
  from "1.prems"(2) have len: "length pins = num_signal_lights" and b: "buzzerPin \<notin> set pins"
    by (simp_all add: bank_def)
  show ?case
  proof (cases "i < num_signal_lights \<and> flag")
    case False
    with "1.prems"(1) have "w' = w" "r = Some flag" by (simp_all add: chase_for_stop)
    with False len show ?thesis by auto
  next
    case True
    obtain st w1 where pre: "millis (buzzerClick (digitalWrite (pins ! i) True w)) = (st, w1)"
      by force
    obtain rw w2 where wt: "wait_for m n st flag w1 = (rw, w2)" by force
    note sp = slot_prelude [OF pre]
    note wf = wait_for_facts [OF wt]
    let ?we = "events_since w1 w2"
    have l2: "log w2 = log w @ slot_events (pins ! i) st @ ?we"
      using sp(1) wf(1) by simp
    have nb: "pins ! i \<noteq> buzzerPin" using True len b by (metis nth_mem)
    have dr: "drop i pins = pins ! i # drop (Suc i) pins"
      using True len by (simp add: Cons_nth_drop_Suc)
    have a1: "activations (slot_events (pins ! i) st) = [pins ! i]"
      "activations ?we = []"
      using nb wf(3) by (simp_all add: activations_slot activations_quiet)
    show ?thesis
    proof (cases rw)
      case None
      with "1.prems"(1) chase_for_step [OF True pre wt] have "w' = w2" "r = None" by simp_all
      moreover have "events_since w w2 = slot_events (pins ! i) st @ ?we"
        using l2 by (rule events_since_append)
      ultimately show ?thesis using a1 dr by simp
    next
      case (Some f)
      with "1.prems"(1) chase_for_step [OF True pre wt]
      have rec: "chase_for pins m n (Suc i) f w2 = (r, w')" by simp
      from "1.IH" [OF True pre [symmetric] wt [symmetric] Some rec "1.prems"(2)]
      have ih: "prefix (activations (events_since w2 w')) (drop (Suc i) pins)"
        "f \<and> r = Some True \<longrightarrow> activations (events_since w2 w') = drop (Suc i) pins"
        by simp_all
      from chase_for_run [OF rec] have lr: "log w' = log w2 @ events_since w2 w'"
        and sh: "for_shape m f r (events_since w2 w')" by simp_all
      have es: "events_since w w' = (slot_events (pins ! i) st @ ?we) @ events_since w2 w'"
      proof (rule events_since_append)
        show "log w' = log w @ (slot_events (pins ! i) st @ ?we) @ events_since w2 w'"
          using l2 lr by simp
      qed
      have "r = Some True \<longrightarrow> f" using sh by (auto simp: for_shape_def)
      with ih show ?thesis
        unfolding es dr by (simp add: a1)
    qed
  qed
qed

lemma chase_while_order:
  "chase_while pins m n flag w = (r, w') \<Longrightarrow> bank pins other \<Longrightarrow>
   prefix (activations (events_since w w')) (concat (replicate n pins))"
proof (induction n arbitrary: flag w)
  case 0
  then have "w' = w" by (simp split: if_splits)
  then show ?case by simp
next
  case (Suc n)
  show ?case
  proof (cases flag)
    case False
    with Suc.prems(1) have "w' = w" by simp
    then show ?thesis by simp
  next
    case True
    obtain rf w1 where f: "chase_for pins m n 0 flag (disableSignals w) = (rf, w1)" by force
    let ?fe = "events_since (disableSignals w) w1"
    from chase_for_run [OF f] have fl: "log w1 = log (disableSignals w) @ ?fe" by simp
    from chase_for_order [OF f Suc.prems(2)] True
    have fo: "prefix (activations ?fe) pins" "rf = Some True \<longrightarrow> activations ?fe = pins"
      by simp_all
    have l1: "log w1 = log w @ blank_events @ ?fe"
      using fl by (simp add: disableSignals_log)
    have e1: "events_since w w1 = blank_events @ ?fe"
      using l1 by (rule events_since_append)
    have part: "prefix (activations (events_since w w1)) (concat (replicate (Suc n) pins))"
      unfolding e1 using prefix_prefix [OF fo(1)] by (simp add: activations_blank)
    show ?thesis
    proof (cases rf)
      case None
      with Suc.prems(1) True f have "w' = w1" by auto
      with part show ?thesis by simp
    next
      case (Some f')
      with Suc.prems(1) True f have rec: "chase_while pins m n f' w1 = (r, w')" by auto
      from Suc.IH [OF rec Suc.prems(2)]
      have ih: "prefix (activations (events_since w1 w')) (concat (replicate n pins))" .
      from chase_while_run [OF rec] have lr: "log w' = log w1 @ events_since w1 w'"
        and sh: "while_shape m f' r (events_since w1 w')" by simp_all
      have es: "events_since w w' = (blank_events @ ?fe) @ events_since w1 w'"
      proof (rule events_since_append)
        show "log w' = log w @ (blank_events @ ?fe) @ events_since w1 w'"
          using l1 lr by simp
      qed
      show ?thesis
      proof (cases f')
        case True
        with Some fo(2) have "activations ?fe = pins" by simp
        with ih show ?thesis unfolding es by (simp add: activations_blank)
      next
        case False
        with sh have "events_since w1 w' = []"
          by (simp add: while_shape_def split: option.splits)
        with part e1 show ?thesis unfolding es by simp
      qed
    qed
  qed
qed

subsection \<open>Closed forms, for running the sketch on a board\<close>

lemma replicate_8: "replicate 8 x = [x, x, x, x, x, x, x, x]"
  by (simp add: numeral_eq_Suc)

lemma buzzerClick_eq:
  "buzzerClick w = w\<lparr>port := (port w)(buzzerPin := False), log := log w @ click_events\<rparr>"
  by (simp add: buzzerClick_def digitalWrite_def delayMicroseconds_def upt_8 click_events_def
      replicate_8)

lemma disableSignals_eq:
  "disableSignals w =
     w\<lparr>port := port_after (port w) blank_events, log := log w @ blank_events\<rparr>"
  by (simp add: disableSignals_def digitalWrite_def blank_events_def num_signal_lights_def upt_4)

lemma all_lights_on_eq:
  "all_lights_on w =
     w\<lparr>port := port_after (port w) lights_on_events, log := log w @ lights_on_events\<rparr>"
  by (simp add: all_lights_on_def digitalWrite_def lights_on_events_def num_signal_lights_def
      upt_4)

lemmas run_simps =
  leftTurnSignal_def rightTurnSignal_def engageHazardLights_def hazard_cycle_def
  left_for.simps right_for.simps buzzerClick_eq disableSignals_eq all_lights_on_eq
  millis_def digitalWrite_def readButtonStates_def digitalRead_def delay_def
  num_signal_lights_def interval_def events_since_def

subsection \<open>After the cancelling sample\<close>

lemma chase_while_stops:
  assumes "chase_while pins m n True w = (r, w')"
    and "events_since w w' = pre @ Sampled s # post" and "s \<noteq> m"
  shows "r = Some () \<and> (\<exists>t. post = [Millis t])"
proof -
  from chase_while_run [OF assms(1)]
  have sh: "while_shape m True r (events_since w w')" by simp
  show ?thesis
  proof (cases r)
    case None
    with sh have "list_all (keeps m) (events_since w w')" by (simp add: while_shape_def)
    from keeps_no_cancel [OF this assms(2)] assms(3) show ?thesis by simp
  next
    case (Some u)
    with sh have "cancelled m (events_since w w')" by (simp add: while_shape_def)
    then obtain pre' s' t' where
      c: "events_since w w' = pre' @ [Sampled s', Millis t']" "list_all (keeps m) pre'"
      unfolding cancelled_def by blast
    from c(1) assms(2) have "pre' @ [Sampled s', Millis t'] = pre @ Sampled s # post" by simp
    from cancelled_unique [OF c(2) this assms(3)] Some show ?thesis by simp
  qed
qed

lemma chase_while_returns:
  assumes "chase_while pins m n True w = (Some (), w')" and "bank pins other"
  shows "\<exists>pre s t. events_since w w' = pre @ [Sampled s, Millis t] \<and> s \<noteq> m
           \<and> port w' = port_after (port w) pre \<and> port w' (pins ! 0)"
proof -
  from chase_while_run [OF assms(1)]
  have pw: "port w' = port_after (port w) (events_since w w')"
    and "cancelled m (events_since w w')"
    by (simp_all add: while_shape_def)
  then obtain pre s t where
    c: "events_since w w' = pre @ [Sampled s, Millis t]" "s \<noteq> m"
    unfolding cancelled_def by blast
  from pw c(1) have p: "port w' = port_after (port w) pre" by simp
  from chase_while_lit [OF assms] c(1)
  have "filling pins other (port_after (port w) pre)"
    by (intro at_samples_decomp [of _ _ _ pre s "[Millis t]"]) simp_all
  then obtain k where k: "0 < k" "lit_upto pins other k (port w')"
    unfolding filling_def p by blast
  from assms(2) have "0 < length pins" by (simp add: bank_def num_signal_lights_def)
  then have "map (port w') pins ! 0 = port w' (pins ! 0)"
    "map (\<lambda>j. j < k) [0..<length pins] ! 0 = (0 < k)" by simp_all
  with k have "port w' (pins ! 0)" by (simp add: lit_upto_def)
  with c p show ?thesis by blast
qed

subsection \<open>One pass of the hazard loop\<close>

lemma hazard_cycle_run:
  assumes "hazard_cycle n True w = (Some True, w')"
  shows "\<exists>st wait1 st' wait2.
        events_since w w' =
          blank_events @ click_events @ Millis st # wait1
          @ lights_on_events @ click_events @ Millis st' # wait2
        \<and> list_all quiet wait1 \<and> list_all (keeps hazards) wait1 \<and> timed_out st wait1
        \<and> list_all quiet wait2 \<and> list_all (keeps hazards) wait2 \<and> timed_out st' wait2"
proof -
  let ?w0 = "buzzerClick (disableSignals w)"
  obtain st w1 where m1: "millis ?w0 = (st, w1)" by force
  obtain r1 w2 where h1: "wait_for hazards n st True w1 = (r1, w2)" by force
  from assms m1 h1 obtain hl where r1: "r1 = Some hl"
    by (cases r1) (simp_all add: hazard_cycle_def hazard_wait_eq)
  let ?w3 = "buzzerClick (all_lights_on w2)"
  obtain st' w4 where m2: "millis ?w3 = (st', w4)" by force
  from assms m1 h1 r1 m2 have h2: "wait_for hazards n st' hl w4 = (Some True, w')"
    by (simp add: hazard_cycle_def hazard_wait_eq)
  note f1 = wait_for_facts [OF h1]
  note f2 = wait_for_facts [OF h2]
  from f2(4) have hl: "hl" and k2: "list_all (keeps hazards) (events_since w4 w')"
    and t2: "timed_out st' (events_since w4 w')"
    by (simp_all add: wait_shape_def)
  from f1(4) r1 hl have k1: "list_all (keeps hazards) (events_since w1 w2)"
    and t1: "timed_out st (events_since w1 w2)"
    by (simp_all add: wait_shape_def)
  have l1: "log w1 = log w @ blank_events @ click_events @ [Millis st]"
    using m1 by (auto simp: millis_def buzzerClick_eq disableSignals_eq)
  have l4: "log w4 = log w2 @ lights_on_events @ click_events @ [Millis st']"
    using m2 by (auto simp: millis_def buzzerClick_eq all_lights_on_eq)
  have "log w' = log w @ (blank_events @ click_events @ Millis st # events_since w1 w2
          @ lights_on_events @ click_events @ Millis st' # events_since w4 w')"
    using l1 l4 f1(1) f2(1) by simp
  then have "events_since w w' = blank_events @ click_events @ Millis st # events_since w1 w2
          @ lights_on_events @ click_events @ Millis st' # events_since w4 w'"
    by (rule events_since_append)
  with f1(3) k1 t1 f2(3) k2 t2 show ?thesis by blast
qed

subsection \<open>Pacing of the writes\<close>

lemma waited_prepend: "waited a t \<Longrightarrow> waited (xs @ a) t"
proof -
  assume "waited a t"
  then obtain a' st mid where
    a: "a = a' @ DelayUs 128 # Millis st # mid" "list_all quiet mid" "\<not> t - st < interval"
    unfolding waited_def by blast
  from a(1) have "xs @ a = (xs @ a') @ DelayUs 128 # Millis st # mid" by simp
  with a(2,3) show ?thesis unfolding waited_def by blast
qed

lemma append_mw_cases:
  assumes "xs @ ys = a @ Millis t # Write q v # c"
  shows "(\<exists>c'. xs = a @ Millis t # Write q v # c' \<and> c = c' @ ys)
         \<or> (xs = a @ [Millis t] \<and> ys = Write q v # c)
         \<or> (\<exists>a'. a = xs @ a' \<and> ys = a' @ Millis t # Write q v # c)"
proof -
  from assms obtain us where
    "(xs = a @ us \<and> us @ ys = Millis t # Write q v # c)
     \<or> (xs @ us = a \<and> ys = us @ Millis t # Write q v # c)"
    by (auto simp: append_eq_append_conv2)
  then show ?thesis
  proof
    assume u: "xs = a @ us \<and> us @ ys = Millis t # Write q v # c"
    show ?thesis
    proof (cases us)
      case Nil
      with u show ?thesis by simp
    next
      case (Cons u1 us1)
      note c1 = Cons
      show ?thesis
      proof (cases us1)
        case Nil
        with u c1 show ?thesis by simp
      next
        case (Cons u2 us2)
        with u c1 show ?thesis by simp
      qed
    qed
  next
    assume "xs @ us = a \<and> ys = us @ Millis t # Write q v # c"
    then show ?thesis by blast
  qed
qed

lemma paced_append:
  assumes "paced xs" and "paced ys"
    and "\<And>a t q v c. xs = a @ [Millis t] \<Longrightarrow> ys = Write q v # c \<Longrightarrow> waited a t"
  shows "paced (xs @ ys)"
  unfolding paced_def
proof (intro allI impI)
  fix a t q v c
  assume "xs @ ys = a @ Millis t # Write q v # c"
  from append_mw_cases [OF this] show "waited a t"
  proof (elim disjE exE conjE)
    fix c' assume "xs = a @ Millis t # Write q v # c'"
    with assms(1) show ?thesis unfolding paced_def by blast
  next
    assume "xs = a @ [Millis t]" "ys = Write q v # c"
    then show ?thesis by (rule assms(3))
  next
    fix a' assume a: "a = xs @ a'" and "ys = a' @ Millis t # Write q v # c"
    with assms(2) have "waited a' t" unfolding paced_def by blast
    then show ?thesis unfolding a by (rule waited_prepend)
  qed
qed

lemma no_mw_decomp: "no_mw (a @ Millis t # Write q v # c) = False"
proof (induction a rule: no_mw.induct)
  case (1 t' q' v' es)
  show ?case by simp
qed simp_all

lemma no_mw_paced: "no_mw es \<Longrightarrow> paced es"
  unfolding paced_def using no_mw_decomp by auto

lemma paced_Nil [simp]: "paced []"
  by (simp add: paced_def)

lemma no_mw_quiet: "list_all quiet es \<Longrightarrow> no_mw es"
  by (induction es rule: no_mw.induct) simp_all

lemma no_mw_Cons:
  "no_mw (e # es) = (no_mw es \<and> \<not> (\<exists>t q v es'. e = Millis t \<and> es = Write q v # es'))"
proof (cases es)
  case Nil
  then show ?thesis by (cases e) simp_all
next
  case (Cons e' es')
  then show ?thesis by (cases e; cases e') simp_all
qed

lemma no_mw_append_quiet: "no_mw xs \<Longrightarrow> list_all quiet ys \<Longrightarrow> no_mw (xs @ ys)"
proof (induction xs)
  case Nil
  then show ?case by (simp add: no_mw_quiet)
next
  case (Cons e xs)
  from Cons.prems(1) no_mw_Cons [of e xs]
  have "no_mw xs \<and> \<not> (\<exists>t q v es'. e = Millis t \<and> xs = Write q v # es')"
    by blast
  then have n: "no_mw xs"
    and m: "\<not> (\<exists>t q v es'. e = Millis t \<and> xs = Write q v # es')"
    by blast+
  from Cons.IH [OF n Cons.prems(2)] have ih: "no_mw (xs @ ys)" .
  have "\<not> (\<exists>t q v es'. e = Millis t \<and> xs @ ys = Write q v # es')"
  proof (cases xs)
    case Nil
    with Cons.prems(2) show ?thesis by (cases ys) auto
  next
    case (Cons x xs')
    with m show ?thesis by auto
  qed
  with ih no_mw_Cons [of e "xs @ ys"] show ?case by simp
qed

lemma click_events_snoc: "click_events = butlast click_events @ [DelayUs 128]"
  by (simp add: click_events_def replicate_8)

lemma no_mw_slot: "no_mw (slot_events p st)"
  by (simp add: slot_events_def click_events_def replicate_8)

lemma no_mw_blank: "no_mw blank_events"
  by (simp add: blank_events_def num_signal_lights_def upt_4)

lemma blank_not_snoc_millis: "blank_events @ xs = a @ [Millis t] \<Longrightarrow> xs \<noteq> []"
proof
  assume e: "blank_events @ xs = a @ [Millis t]" and "xs = []"
  then have "last blank_events = Millis t" by (metis append_Nil2 last_snoc)
  then show False by (simp add: blank_events_def num_signal_lights_def upt_4)
qed

lemma slot_wait_waited:
  assumes "timed_out st we" and "list_all quiet we"
    and "slot_events p st @ we = a @ [Millis t]"
  shows "waited a t"
proof -
  from assms(1) obtain t' where
    ne: "we \<noteq> []" and la: "last we = Millis t'" and to: "\<not> t' - st < interval"
    unfolding timed_out_def by blast
  from ne la have we: "we = butlast we @ [Millis t']" by (metis append_butlast_last_id)
  have "slot_events p st @ we = (slot_events p st @ butlast we) @ [Millis t']"
    by (subst we) simp
  with assms(3) have a: "a = slot_events p st @ butlast we" and t: "t = t'" by simp_all
  have "slot_events p st = (Write p True # butlast click_events) @ [DelayUs 128, Millis st]"
    unfolding slot_events_def by (subst click_events_snoc) simp
  then have "a = (Write p True # butlast click_events) @ DelayUs 128 # Millis st # butlast we"
    unfolding a by simp
  moreover have "list_all quiet (butlast we)"
    using assms(2) unfolding list_all_iff by (auto dest: in_set_butlastD)
  ultimately show ?thesis unfolding waited_def using to t by blast
qed

lemma chase_for_paced:
  "chase_for pins m n i flag w = (r, w') \<Longrightarrow>
   paced (events_since w w')
   \<and> (flag \<and> i < num_signal_lights \<and> r = Some True \<longrightarrow>
        (\<exists>a t. events_since w w' = a @ [Millis t] \<and> waited a t))"
proof (induction pins m n i flag w rule: chase_for.induct)
  case (1 pins m n i flag w)
  show ?case
  proof (cases "i < num_signal_lights \<and> flag")
    case False
    with "1.prems" have "w' = w" by (simp add: chase_for_stop)
    with False show ?thesis by auto
  next
    case True
    obtain st w1 where pre: "millis (buzzerClick (digitalWrite (pins ! i) True w)) = (st, w1)"
      by force
    obtain rw w2 where wt: "wait_for m n st flag w1 = (rw, w2)" by force
    note sp = slot_prelude [OF pre]
    note wf = wait_for_facts [OF wt]
    let ?we = "events_since w1 w2"
    let ?xs = "slot_events (pins ! i) st @ ?we"
    have l2: "log w2 = log w @ ?xs" using sp(1) wf(1) by simp
    have px: "paced ?xs"
      using no_mw_slot wf(3) by (intro no_mw_paced no_mw_append_quiet)
    show ?thesis
    proof (cases rw)
      case None
      with "1.prems" chase_for_step [OF True pre wt] have "w' = w2" "r = None" by simp_all
      moreover have "events_since w w2 = ?xs" using l2 by (rule events_since_append)
      ultimately show ?thesis using px by simp
    next
      case (Some f)
      with "1.prems" chase_for_step [OF True pre wt]
      have rec: "chase_for pins m n (Suc i) f w2 = (r, w')" by simp
      let ?ys = "events_since w2 w'"
      from "1.IH" [OF True pre [symmetric] wt [symmetric] Some rec]
      have ih: "paced ?ys"
        "f \<and> Suc i < num_signal_lights \<and> r = Some True \<longrightarrow>
           (\<exists>a t. ?ys = a @ [Millis t] \<and> waited a t)"
        by simp_all
      from chase_for_run [OF rec] have lr: "log w' = log w2 @ ?ys"
        and sh: "for_shape m f r ?ys" by simp_all
      have es: "events_since w w' = ?xs @ ?ys"
      proof (rule events_since_append)
        show "log w' = log w @ ?xs @ ?ys" using l2 lr by simp
      qed
      have to: "f \<Longrightarrow> timed_out st ?we"
        using wf(4) Some by (simp add: wait_shape_def)
      have nf: "\<not> f \<Longrightarrow> ?ys = []"
        using sh by (auto simp: for_shape_def split: option.splits bool.splits)
      have p: "paced (?xs @ ?ys)"
      proof (rule paced_append [OF px ih(1)])
        fix a t q v c
        assume x: "?xs = a @ [Millis t]" and y: "?ys = Write q v # c"
        from y nf have f by auto
        from slot_wait_waited [OF to [OF this] wf(3) x] show "waited a t" .
      qed
      have fin: "\<exists>a t. ?xs @ ?ys = a @ [Millis t] \<and> waited a t" if "r = Some True"
      proof -
        from that sh have f: f by (auto simp: for_shape_def)
        show ?thesis
        proof (cases "Suc i < num_signal_lights")
          case True
          with ih(2) f that obtain a t where "?ys = a @ [Millis t]" "waited a t" by blast
          then have "?xs @ ?ys = (?xs @ a) @ [Millis t]" "waited (?xs @ a) t"
            by (simp_all add: waited_prepend)
          then show ?thesis by blast
        next
          case False
          with rec have "w' = w2" by (simp add: chase_for_stop)
          then have y: "?ys = []" by simp
          from to [OF f] obtain t' where
            ne: "?we \<noteq> []" and la: "last ?we = Millis t'"
            unfolding timed_out_def by blast
          then have "?we = butlast ?we @ [Millis t']" by (metis append_butlast_last_id)
          then have x: "?xs = (slot_events (pins ! i) st @ butlast ?we) @ [Millis t']"
            by (metis append_assoc)
          from slot_wait_waited [OF to [OF f] wf(3) x] x y show ?thesis
            by (metis append_Nil2)
        qed
      qed
      from p fin show ?thesis unfolding es by simp
    qed
  qed
qed

lemma chase_while_paced:
  "chase_while pins m n flag w = (r, w') \<Longrightarrow> paced (events_since w w')"
proof (induction n arbitrary: flag w)
  case 0
  then have "w' = w" by (simp split: if_splits)
  then show ?case by simp
next
  case (Suc n)
  show ?case
  proof (cases flag)
    case False
    with Suc.prems have "w' = w" by simp
    then show ?thesis by simp
  next
    case True
    obtain rf w1 where f: "chase_for pins m n 0 flag (disableSignals w) = (rf, w1)" by force
    let ?fe = "events_since (disableSignals w) w1"
    from chase_for_run [OF f] have fl: "log w1 = log (disableSignals w) @ ?fe" by simp
    from chase_for_paced [OF f] True
    have pf: "paced ?fe"
      and fin: "rf = Some True \<longrightarrow> (\<exists>a t. ?fe = a @ [Millis t] \<and> waited a t)"
      by (simp_all add: num_signal_lights_def)
    have l1: "log w1 = log w @ blank_events @ ?fe"
      using fl by (simp add: disableSignals_log)
    have pb: "paced (blank_events @ ?fe)"
    proof (rule paced_append [OF no_mw_paced [OF no_mw_blank] pf])
      fix a t q v c
      assume "blank_events = a @ [Millis t]"
      then have "blank_events @ [] = a @ [Millis t]" by simp
      from blank_not_snoc_millis [OF this] show "waited a t" by simp
    qed
    show ?thesis
    proof (cases rf)
      case None
      with Suc.prems True f have "w' = w1" by auto
      moreover have "events_since w w1 = blank_events @ ?fe"
        using l1 by (rule events_since_append)
      ultimately show ?thesis using pb by simp
    next
      case (Some f')
      with Suc.prems True f have rec: "chase_while pins m n f' w1 = (r, w')" by auto
      let ?ys = "events_since w1 w'"
      from Suc.IH [OF rec] have ih: "paced ?ys" .
      from chase_while_run [OF rec] have lr: "log w' = log w1 @ ?ys"
        and sh: "while_shape m f' r ?ys" by simp_all
      have es: "events_since w w' = (blank_events @ ?fe) @ ?ys"
      proof (rule events_since_append)
        show "log w' = log w @ (blank_events @ ?fe) @ ?ys" using l1 lr by simp
      qed
      have nf: "\<not> f' \<Longrightarrow> ?ys = []"
        using sh by (auto simp: while_shape_def split: option.splits)
      have "paced ((blank_events @ ?fe) @ ?ys)"
      proof (rule paced_append [OF pb ih])
        fix a t q v c
        assume x: "blank_events @ ?fe = a @ [Millis t]" and y: "?ys = Write q v # c"
        from y nf have f' by auto
        with fin Some obtain a' t' where fe: "?fe = a' @ [Millis t']" and wa: "waited a' t'"
          by blast
        from x fe have "a = blank_events @ a'" "t = t'" by simp_all
        with wa show "waited a t" by (simp add: waited_prepend)
      qed
      then show ?thesis unfolding es .
    qed
  qed
qed

subsection \<open>More fuel does not change a run that returned\<close>

text \<open>
  The fuel only cuts runs short: a call that returns with some fuel returns the same
  world with any larger fuel, so \<open>Some\<close> results are results of the sketch itself.
\<close>

lemma wait_for_more_fuel:
  "wait_for m n st flag w = (Some b, w') \<Longrightarrow> wait_for m (Suc n) st flag w = (Some b, w')"
proof (induction n arbitrary: flag w)
  case 0
  then show ?case by (auto split: prod.splits if_splits)
next
  case (Suc n)
  obtain t w1 where m: "millis w = (t, w1)" by force
  show ?case
  proof (cases "t - st < interval \<and> flag")
    case False
    with Suc.prems m show ?thesis by auto
  next
    case True
    obtain s w2 where rb: "readButtonStates w1 = (s, w2)" by force
    from Suc.prems m True rb have "wait_for m n st (s = m) w2 = (Some b, w')" by simp
    from Suc.IH [OF this] m True rb show ?thesis by simp
  qed
qed

lemma chase_for_more_fuel:
  "chase_for pins m n i flag w = (Some b, w') \<Longrightarrow>
   chase_for pins m (Suc n) i flag w = (Some b, w')"
proof (induction pins m n i flag w rule: chase_for.induct)
  case (1 pins m n i flag w)
  show ?case
  proof (cases "i < num_signal_lights \<and> flag")
    case False
    with "1.prems" show ?thesis by (simp add: chase_for_stop)
  next
    case True
    obtain st w1 where pre: "millis (buzzerClick (digitalWrite (pins ! i) True w)) = (st, w1)"
      by force
    obtain rw w2 where wt: "wait_for m n st flag w1 = (rw, w2)" by force
    from "1.prems" chase_for_step [OF True pre wt] obtain f where
      rw: "rw = Some f" and rec: "chase_for pins m n (Suc i) f w2 = (Some b, w')"
      by (cases rw) simp_all
    from wt rw have "wait_for m n st flag w1 = (Some f, w2)" by simp
    then have wt': "wait_for m (Suc n) st flag w1 = (Some f, w2)"
      by (rule wait_for_more_fuel)
    from "1.IH" [OF True pre [symmetric] wt [symmetric] rw rec]
    have "chase_for pins m (Suc n) (Suc i) f w2 = (Some b, w')" .
    with chase_for_step [OF True pre wt'] show ?thesis by simp
  qed
qed

lemma chase_while_more_fuel:
  "chase_while pins m n flag w = (Some u, w') \<Longrightarrow>
   chase_while pins m (Suc n) flag w = (Some u, w')"
proof (induction n arbitrary: flag w)
  case 0
  then show ?case by (simp split: if_splits)
next
  case (Suc n)
  show ?case
  proof (cases flag)
    case False
    with Suc.prems show ?thesis by simp
  next
    case True
    obtain rf w1 where f: "chase_for pins m n 0 flag (disableSignals w) = (rf, w1)" by force
    from Suc.prems True f obtain f' where
      rf: "rf = Some f'" and rec: "chase_while pins m n f' w1 = (Some u, w')"
      by (cases rf) simp_all
    from f rf have "chase_for pins m n 0 flag (disableSignals w) = (Some f', w1)" by simp
    then have "chase_for pins m (Suc n) 0 flag (disableSignals w) = (Some f', w1)"
      by (rule chase_for_more_fuel)
    with Suc.IH [OF rec] True show ?thesis by simp
  qed
qed

lemma hazard_cycle_more_fuel:
  "hazard_cycle n flag w = (Some b, w') \<Longrightarrow> hazard_cycle (Suc n) flag w = (Some b, w')"
proof -
  assume a: "hazard_cycle n flag w = (Some b, w')"
  obtain st w1 where m1: "millis (buzzerClick (disableSignals w)) = (st, w1)" by force
  obtain r1 w2 where h1: "wait_for hazards n st flag w1 = (r1, w2)" by force
  from a m1 h1 obtain hl where r1: "r1 = Some hl"
    by (cases r1) (simp_all add: hazard_cycle_def hazard_wait_eq)
  obtain st' w4 where m2: "millis (buzzerClick (all_lights_on w2)) = (st', w4)" by force
  from a m1 h1 r1 m2 have h2: "wait_for hazards n st' hl w4 = (Some b, w')"
    by (simp add: hazard_cycle_def hazard_wait_eq)
  from h1 r1 have "wait_for hazards n st flag w1 = (Some hl, w2)" by simp
  then have "wait_for hazards (Suc n) st flag w1 = (Some hl, w2)"
    by (rule wait_for_more_fuel)
  moreover from h2 have "wait_for hazards (Suc n) st' hl w4 = (Some b, w')"
    by (rule wait_for_more_fuel)
  ultimately show ?thesis using m1 m2
    by (simp add: hazard_cycle_def hazard_wait_eq del: wait_for.simps)
qed

lemma hazard_while_more_fuel:
  "hazard_while n flag w = (Some u, w') \<Longrightarrow> hazard_while (Suc n) flag w = (Some u, w')"
proof (induction n arbitrary: flag w)
  case 0
  then show ?case by (simp split: if_splits)
next
  case (Suc n)
  show ?case
  proof (cases flag)
    case False
    with Suc.prems show ?thesis by simp
  next
    case True
    obtain rc w1 where c: "hazard_cycle n flag w = (rc, w1)" by force
    from Suc.prems True c obtain hl where
      rc: "rc = Some hl" and rec: "hazard_while n hl w1 = (Some u, w')"
      by (cases rc) simp_all
    from c rc have "hazard_cycle n flag w = (Some hl, w1)" by simp
    then have "hazard_cycle (Suc n) flag w = (Some hl, w1)"
      by (rule hazard_cycle_more_fuel)
    with Suc.IH [OF rec] True show ?thesis by simp
  qed
qed

lemma returns_with_more_fuel:
  assumes "n \<le> k"
  shows "leftTurnSignal n w = (Some (), w') \<Longrightarrow> leftTurnSignal k w = (Some (), w')"
    and "rightTurnSignal n w = (Some (), w') \<Longrightarrow> rightTurnSignal k w = (Some (), w')"
    and "engageHazardLights n w = (Some (), w') \<Longrightarrow> engageHazardLights k w = (Some (), w')"
  using assms
proof (induction k)
  case 0
  { case 1 then show ?case by simp
  next case 2 then show ?case by simp
  next case 3 then show ?case by simp }
next
  case (Suc k)
  { case 1
    then show ?case
      using Suc.IH(1) chase_while_more_fuel [of leftSignalPins left k True w "()" w']
      by (cases "n = Suc k") (simp_all add: leftTurnSignal_def left_while_eq del: chase_while.simps)
  next
    case 2
    then show ?case
      using Suc.IH(2) chase_while_more_fuel [of rightSignalPins right k True w "()" w']
      by (cases "n = Suc k") (simp_all add: rightTurnSignal_def right_while_eq del: chase_while.simps)
  next
    case 3
    then show ?case
      using Suc.IH(3) hazard_while_more_fuel [of k True w "()" w']
      by (cases "n = Suc k") (simp_all add: engageHazardLights_def del: hazard_while.simps)
  }
qed

subsection \<open>Runs with the buttons held: what the sketch does\<close>

lemma readButtonStates_eq:
  "readButtonStates w =
     (mode_read (pin_in w) (reads w),
      w\<lparr>reads := Suc (Suc (reads w)),
        log := log w @ [Read leftButtonPin (pin_in w (reads w) leftButtonPin),
                        Read rightButtonPin (pin_in w (Suc (reads w)) rightButtonPin),
                        DelayMs 1, Sampled (mode_read (pin_in w) (reads w))]\<rparr>)"
  by (simp add: readButtonStates_def digitalRead_def delay_def mode_read_def)

lemma wait_for_total:
  "runs_out (clock w) (pin_in w) m st (ticks w) (reads w) k \<Longrightarrow> k \<le> n \<Longrightarrow>
   wait_for m n st True w =
     (Some True,
      w\<lparr>reads := reads w + 2 * k, ticks := Suc (ticks w + k),
        log := log w @ polls (clock w) (pin_in w) (ticks w) (reads w) k\<rparr>)"
proof (induction k arbitrary: n w)
  case 0
  then show ?case by (cases n) (simp_all add: millis_def)
next
  case (Suc k)
  from Suc.prems(2) obtain n' where n: "n = Suc n'" and kn: "k \<le> n'" by (cases n) simp_all
  let ?w2 = "w\<lparr>reads := Suc (Suc (reads w)), ticks := Suc (ticks w),
        log := log w @ [Millis (clock w (ticks w)),
                        Read leftButtonPin (pin_in w (reads w) leftButtonPin),
                        Read rightButtonPin (pin_in w (Suc (reads w)) rightButtonPin),
                        DelayMs 1, Sampled (mode_read (pin_in w) (reads w))]\<rparr>"
  from Suc.prems(1) have c: "clock w (ticks w) - st < interval"
    and s: "mode_read (pin_in w) (reads w) = m"
    and r: "runs_out (clock ?w2) (pin_in ?w2) m st (ticks ?w2) (reads ?w2) k"
    by simp_all
  have w2: "snd (readButtonStates (snd (millis w))) = ?w2"
    by (rule world.equality) (simp_all add: millis_def readButtonStates_eq)
  have "wait_for m n st True w = wait_for m n' st True (snd (readButtonStates (snd (millis w))))"
    unfolding n using c s by (simp add: millis_def readButtonStates_eq)
  then have "wait_for m n st True w = wait_for m n' st True ?w2" by (simp only: w2)
  also have "\<dots> = (Some True,
      ?w2\<lparr>reads := reads ?w2 + 2 * k, ticks := Suc (ticks ?w2 + k),
        log := log ?w2 @ polls (clock ?w2) (pin_in ?w2) (ticks ?w2) (reads ?w2) k\<rparr>)"
    using r kn by (rule Suc.IH)
  also have "?w2\<lparr>reads := reads ?w2 + 2 * k, ticks := Suc (ticks ?w2 + k),
        log := log ?w2 @ polls (clock ?w2) (pin_in ?w2) (ticks ?w2) (reads ?w2) k\<rparr> =
      w\<lparr>reads := reads w + 2 * Suc k, ticks := Suc (ticks w + Suc k),
        log := log w @ polls (clock w) (pin_in w) (ticks w) (reads w) (Suc k)\<rparr>"
    by (rule world.equality) simp_all
  finally show ?case .
qed

lemma hazard_cycle_total:
  assumes "runs_out (clock w) (pin_in w) hazards (clock w (ticks w)) (Suc (ticks w)) (reads w) k1"
    and "runs_out (clock w) (pin_in w) hazards (clock w (ticks w + k1 + 2))
           (ticks w + k1 + 3) (reads w + 2 * k1) k2"
    and "k1 \<le> n" and "k2 \<le> n"
  shows "hazard_cycle n True w =
     (Some True,
      w\<lparr>port := port_after (port w) (blank_events @ click_events @ lights_on_events @ click_events),
        reads := reads w + 2 * k1 + 2 * k2, ticks := ticks w + k1 + k2 + 4,
        log := log w @ hazard_pass_events (clock w) (pin_in w) (ticks w) (reads w) k1 k2\<rparr>)"
proof -
  let ?w1 = "w\<lparr>port := (port_after (port w) blank_events)(buzzerPin := False),
       ticks := Suc (ticks w),
       log := log w @ blank_events @ click_events @ [Millis (clock w (ticks w))]\<rparr>"
  have m1: "millis (buzzerClick (disableSignals w)) = (clock w (ticks w), ?w1)"
    by (rule prod_eqI, simp add: millis_def buzzerClick_eq disableSignals_eq, rule world.equality)
       (simp_all add: millis_def buzzerClick_eq disableSignals_eq)
  have r1: "runs_out (clock ?w1) (pin_in ?w1) hazards (clock w (ticks w)) (ticks ?w1) (reads ?w1) k1"
    using assms(1) by simp
  note h1 = wait_for_total [OF r1 assms(3)]
  let ?w2 = "?w1\<lparr>reads := reads ?w1 + 2 * k1, ticks := Suc (ticks ?w1 + k1),
        log := log ?w1 @ polls (clock ?w1) (pin_in ?w1) (ticks ?w1) (reads ?w1) k1\<rparr>"
  let ?w3 = "?w2\<lparr>port := (port_after (port ?w2) lights_on_events)(buzzerPin := False),
       ticks := Suc (ticks ?w2),
       log := log ?w2 @ lights_on_events @ click_events @ [Millis (clock w (ticks ?w2))]\<rparr>"
  have m2: "millis (buzzerClick (all_lights_on ?w2)) = (clock w (ticks ?w2), ?w3)"
    by (rule prod_eqI, simp add: millis_def buzzerClick_eq all_lights_on_eq, rule world.equality)
       (simp_all add: millis_def buzzerClick_eq all_lights_on_eq)
  have t2: "ticks ?w2 = ticks w + k1 + 2" "ticks ?w3 = ticks w + k1 + 3"
    "reads ?w3 = reads w + 2 * k1" by simp_all
  have r2: "runs_out (clock ?w3) (pin_in ?w3) hazards (clock w (ticks ?w2)) (ticks ?w3) (reads ?w3) k2"
    using assms(2) by (simp add: eval_nat_numeral)
  note h2 = wait_for_total [OF r2 assms(4)]
  have "hazard_cycle n True w = wait_for hazards n (clock w (ticks ?w2)) True ?w3"
    unfolding hazard_cycle_def hazard_wait_eq m1 prod.case h1 option.case m2 ..
  also note h2
  also have "?w3\<lparr>reads := reads ?w3 + 2 * k2, ticks := Suc (ticks ?w3 + k2),
        log := log ?w3 @ polls (clock ?w3) (pin_in ?w3) (ticks ?w3) (reads ?w3) k2\<rparr> =
      w\<lparr>port := port_after (port w) (blank_events @ click_events @ lights_on_events @ click_events),
        reads := reads w + 2 * k1 + 2 * k2, ticks := ticks w + k1 + k2 + 4,
        log := log w @ hazard_pass_events (clock w) (pin_in w) (ticks w) (reads w) k1 k2\<rparr>"
    by (rule world.equality) (simp_all add: hazard_pass_events_def port_after_click eval_nat_numeral)
  finally show ?thesis .
qed

lemma activations_Cons: "activations (e # es) = lit_by e @ activations es"
  by (simp add: activations_def)

lemma at_counted_append:
  "at_counted P c f (es @ fs) =
     (at_counted P c f es \<and> at_counted P (c + length (activations es)) (port_after f es) fs)"
proof (induction es arbitrary: c f)
  case Nil
  show ?case by simp
next
  case (Cons e es)
  show ?case
  proof (cases e)
    case (Sampled s)
    then show ?thesis using Cons.IH [of c f] by (simp add: activations_Cons)
  next
    case (Write p v)
    let ?c = "c + length (lit_by e)"
    have "at_counted P c f ((e # es) @ fs) = at_counted P ?c (f(p := v)) (es @ fs)"
      unfolding Write by simp
    also have "\<dots> = (at_counted P ?c (f(p := v)) es
        \<and> at_counted P (?c + length (activations es)) (port_after (f(p := v)) es) fs)"
      by (rule Cons.IH)
    also have "\<dots> = (at_counted P c f (e # es)
        \<and> at_counted P (c + length (activations (e # es))) (port_after f (e # es)) fs)"
      unfolding Write by (simp add: activations_Cons add.assoc)
    finally show ?thesis .
  qed (use Cons.IH [of c f] in \<open>simp_all add: activations_Cons\<close>)
qed

lemma at_counted_quiet: "list_all quiet es \<Longrightarrow> P c f \<Longrightarrow> at_counted P c f es"
proof (induction es)
  case Nil
  show ?case by simp
next
  case (Cons e es)
  then show ?case by (cases e) simp_all
qed

lemma at_counted_decomp:
  "at_counted P c f es \<Longrightarrow> es = pre @ Sampled s # post \<Longrightarrow>
   P (c + length (activations pre)) (port_after f pre)"
  by (simp add: at_counted_append)

lemma at_counted_click: "at_counted P c f click_events"
  by (simp add: click_events_def replicate_8)

lemma at_counted_slot: "at_counted P c f (slot_events p st)"
  by (simp add: slot_events_def at_counted_append at_counted_click)

lemma at_counted_blank: "at_counted P c f blank_events"
  by (simp add: blank_events_def num_signal_lights_def upt_4)

lemma chase_for_tied:
  "chase_for pins m n i flag w = (r, w') \<Longrightarrow> bank pins other \<Longrightarrow>
   lit_upto pins other i (port w) \<Longrightarrow> c mod num_signal_lights = i mod num_signal_lights \<Longrightarrow>
   at_counted (slot_lit pins other) c (port w) (events_since w w')"
proof (induction pins m n i flag w arbitrary: c rule: chase_for.induct)
  case (1 pins m n i flag w)
  from "1.prems"(2) have len: "length pins = num_signal_lights" and b: "buzzerPin \<notin> set pins"
    by (simp_all add: bank_def)
  show ?case
  proof (cases "i < num_signal_lights \<and> flag")
    case False
    with "1.prems"(1) have "w' = w" by (simp add: chase_for_stop)
    then show ?thesis by simp
  next
    case True
    obtain st w1 where pre: "millis (buzzerClick (digitalWrite (pins ! i) True w)) = (st, w1)"
      by force
    obtain rw w2 where wt: "wait_for m n st flag w1 = (rw, w2)" by force
    note sp = slot_prelude [OF pre]
    note wf = wait_for_facts [OF wt]
    let ?we = "events_since w1 w2"
    have nb: "pins ! i \<noteq> buzzerPin" using True len b by (metis nth_mem)
    have ci: "c mod num_signal_lights = i" using "1.prems"(4) True by simp
    from "1.prems"(2,3) True
    have lit1: "lit_upto pins other (Suc i) (port w1)"
      unfolding sp(2) by (intro lit_upto_Suc) simp_all
    have sl: "slot_lit pins other (Suc c) (port w1)"
      using lit1 ci by (simp add: slot_lit_def)
    then have aw: "at_counted (slot_lit pins other) (Suc c) (port w1) ?we"
      using wf(3) by (intro at_counted_quiet)
    have l2: "log w2 = log w @ slot_events (pins ! i) st @ ?we"
      using sp(1) wf(1) by simp
    have p1: "port_after (port w) (slot_events (pins ! i) st) = port w1"
      by (simp add: port_after_slot sp(2))
    have a1: "activations (slot_events (pins ! i) st) = [pins ! i]" "activations ?we = []"
      using nb wf(3) by (simp_all add: activations_slot activations_quiet)
    show ?thesis
    proof (cases rw)
      case None
      with "1.prems"(1) chase_for_step [OF True pre wt] have "w' = w2" by simp
      moreover have "events_since w w2 = slot_events (pins ! i) st @ ?we"
        using l2 by (rule events_since_append)
      ultimately show ?thesis using aw p1 a1
        by (simp add: at_counted_append at_counted_slot)
    next
      case (Some f)
      with "1.prems"(1) chase_for_step [OF True pre wt]
      have rec: "chase_for pins m n (Suc i) f w2 = (r, w')" by simp
      have lit2: "lit_upto pins other (Suc i) (port w2)" using lit1 wf(2) by simp
      have cs: "Suc c mod num_signal_lights = Suc i mod num_signal_lights"
        using ci by (metis mod_Suc_eq)
      from "1.IH" [OF True pre [symmetric] wt [symmetric] Some rec "1.prems"(2) lit2 cs]
      have ih: "at_counted (slot_lit pins other) (Suc c) (port w2) (events_since w2 w')" .
      from chase_for_run [OF rec] have lr: "log w' = log w2 @ events_since w2 w'" by simp
      have es: "events_since w w' = slot_events (pins ! i) st @ ?we @ events_since w2 w'"
      proof (rule events_since_append)
        show "log w' = log w @ slot_events (pins ! i) st @ ?we @ events_since w2 w'"
          using l2 lr by simp
      qed
      have "port_after (port w1) ?we = port w2"
        using wf(2,3) by (simp add: quiet_port_after)
      with es aw ih p1 a1 show ?thesis
        by (simp add: at_counted_append at_counted_slot)
    qed
  qed
qed

lemma chase_while_tied:
  "chase_while pins m n flag w = (r, w') \<Longrightarrow> bank pins other \<Longrightarrow>
   c mod num_signal_lights = 0 \<Longrightarrow>
   at_counted (slot_lit pins other) c (port w) (events_since w w')"
proof (induction n arbitrary: flag w c)
  case 0
  then have "w' = w" by (simp split: if_splits)
  then show ?case by simp
next
  case (Suc n)
  from Suc.prems(2) have len: "length pins = num_signal_lights" by (simp add: bank_def)
  show ?case
  proof (cases flag)
    case False
    with Suc.prems(1) have "w' = w" by simp
    then show ?thesis by simp
  next
    case True
    obtain rf w1 where f: "chase_for pins m n 0 flag (disableSignals w) = (rf, w1)" by force
    let ?fe = "events_since (disableSignals w) w1"
    from chase_for_run [OF f] have
      fl: "log w1 = log (disableSignals w) @ ?fe" and
      fp: "port w1 = port_after (port (disableSignals w)) ?fe"
      by auto
    have c0: "c mod num_signal_lights = 0 mod num_signal_lights" using Suc.prems(3) by simp
    have af: "at_counted (slot_lit pins other) c (port (disableSignals w)) ?fe"
      using f Suc.prems(2) lit_upto_blank [OF Suc.prems(2)] c0 by (rule chase_for_tied)
    have l1: "log w1 = log w @ blank_events @ ?fe"
      using fl by (simp add: disableSignals_log)
    have ab: "at_counted (slot_lit pins other) c (port w) (blank_events @ ?fe)"
      using af
      by (simp add: at_counted_append at_counted_blank disableSignals_port activations_blank)
    have p1: "port_after (port w) (blank_events @ ?fe) = port w1"
      using fp by (simp add: disableSignals_port)
    show ?thesis
    proof (cases rf)
      case None
      with Suc.prems(1) True f have "w' = w1" by auto
      moreover have "events_since w w1 = blank_events @ ?fe"
        using l1 by (rule events_since_append)
      ultimately show ?thesis using ab by simp
    next
      case (Some f')
      with Suc.prems(1) True f have rec: "chase_while pins m n f' w1 = (r, w')" by auto
      from chase_while_run [OF rec] have lr: "log w' = log w1 @ events_since w1 w'"
        and sh: "while_shape m f' r (events_since w1 w')" by simp_all
      have es: "events_since w w' = (blank_events @ ?fe) @ events_since w1 w'"
      proof (rule events_since_append)
        show "log w' = log w @ (blank_events @ ?fe) @ events_since w1 w'"
          using l1 lr by simp
      qed
      let ?c' = "c + length (activations (blank_events @ ?fe))"
      have "at_counted (slot_lit pins other) ?c' (port w1) (events_since w1 w')"
      proof (cases f')
        case True
        with chase_for_order [OF f Suc.prems(2)] Some \<open>flag\<close>
        have "activations ?fe = pins" by simp
        then have "?c' mod num_signal_lights = 0"
          using Suc.prems(3) len by (simp add: activations_blank)
        with rec Suc.prems(2) show ?thesis by (rule Suc.IH)
      next
        case False
        with sh have "events_since w1 w' = []"
          by (simp add: while_shape_def split: option.splits)
        then show ?thesis by simp
      qed
      then show ?thesis
        unfolding es at_counted_append [of _ _ _ "blank_events @ ?fe"] p1
        using ab by simp
    qed
  qed
qed

lemma slot_prelude_eq:
  "millis (buzzerClick (digitalWrite p True w)) =
     (clock w (ticks w),
      w\<lparr>port := (port w)(p := True, buzzerPin := False), ticks := Suc (ticks w),
        log := log w @ slot_events p (clock w (ticks w))\<rparr>)"
  by (rule prod_eqI, simp add: millis_def buzzerClick_eq digitalWrite_def, rule world.equality)
     (simp_all add: millis_def buzzerClick_eq digitalWrite_def slot_events_def)

lemma chase_for_total:
  "length ks + i = num_signal_lights \<Longrightarrow>
   on_time (clock w) (pin_in w) m (ticks w) (reads w) ks \<Longrightarrow> list_all (\<lambda>k. k \<le> n) ks \<Longrightarrow>
   chase_for pins m n i True w =
     (Some True,
      w\<lparr>port := port_after (port w)
                 (fill_events pins (clock w) (pin_in w) (ticks w) (reads w) i ks),
        reads := reads w + 2 * sum_list ks,
        ticks := ticks w + sum_list ks + 2 * length ks,
        log := log w @ fill_events pins (clock w) (pin_in w) (ticks w) (reads w) i ks\<rparr>)"
proof (induction ks arbitrary: i w)
  case Nil
  then have "chase_for pins m n i True w = (Some True, w)" by (simp add: chase_for_stop)
  moreover have "w = w\<lparr>port := port_after (port w)
                 (fill_events pins (clock w) (pin_in w) (ticks w) (reads w) i []),
        reads := reads w + 2 * sum_list [],
        ticks := ticks w + sum_list [] + 2 * length ([] :: nat list),
        log := log w @ fill_events pins (clock w) (pin_in w) (ticks w) (reads w) i []\<rparr>"
    by (rule world.equality) simp_all
  ultimately show ?case by simp
next
  case (Cons k ks)
  from Cons.prems(1) have i: "i < num_signal_lights \<and> True" by simp
  let ?st = "clock w (ticks w)"
  let ?w1 = "w\<lparr>port := (port w)(pins ! i := True, buzzerPin := False), ticks := Suc (ticks w),
        log := log w @ slot_events (pins ! i) ?st\<rparr>"
  have r1: "runs_out (clock ?w1) (pin_in ?w1) m ?st (ticks ?w1) (reads ?w1) k"
    using Cons.prems(2) by simp
  from Cons.prems(3) have kn: "k \<le> n" and ksn: "list_all (\<lambda>k. k \<le> n) ks" by simp_all
  let ?w2 = "?w1\<lparr>reads := reads ?w1 + 2 * k, ticks := Suc (ticks ?w1 + k),
        log := log ?w1 @ polls (clock ?w1) (pin_in ?w1) (ticks ?w1) (reads ?w1) k\<rparr>"
  note wt = wait_for_total [OF r1 kn]
  have len: "length ks + Suc i = num_signal_lights" using Cons.prems(1) by simp
  have ot: "on_time (clock ?w2) (pin_in ?w2) m (ticks ?w2) (reads ?w2) ks"
    using Cons.prems(2) by simp
  have "chase_for pins m n i True w = chase_for pins m n (Suc i) True ?w2"
    using chase_for_step [OF i slot_prelude_eq wt] by simp
  also note Cons.IH [OF len ot ksn]
  also have "?w2\<lparr>port := port_after (port ?w2)
                 (fill_events pins (clock ?w2) (pin_in ?w2) (ticks ?w2) (reads ?w2) (Suc i) ks),
        reads := reads ?w2 + 2 * sum_list ks,
        ticks := ticks ?w2 + sum_list ks + 2 * length ks,
        log := log ?w2 @ fill_events pins (clock ?w2) (pin_in ?w2) (ticks ?w2) (reads ?w2) (Suc i) ks\<rparr>
     = w\<lparr>port := port_after (port w)
                 (fill_events pins (clock w) (pin_in w) (ticks w) (reads w) i (k # ks)),
        reads := reads w + 2 * sum_list (k # ks),
        ticks := ticks w + sum_list (k # ks) + 2 * length (k # ks),
        log := log w @ fill_events pins (clock w) (pin_in w) (ticks w) (reads w) i (k # ks)\<rparr>"
  proof (rule world.equality)
    have q: "list_all quiet (polls c p t r j)" for c p t r j
      by (induction j arbitrary: t r) simp_all
    show "port (?w2\<lparr>port := port_after (port ?w2)
                 (fill_events pins (clock ?w2) (pin_in ?w2) (ticks ?w2) (reads ?w2) (Suc i) ks),
        reads := reads ?w2 + 2 * sum_list ks,
        ticks := ticks ?w2 + sum_list ks + 2 * length ks,
        log := log ?w2 @ fill_events pins (clock ?w2) (pin_in ?w2) (ticks ?w2) (reads ?w2) (Suc i) ks\<rparr>)
     = port (w\<lparr>port := port_after (port w)
                 (fill_events pins (clock w) (pin_in w) (ticks w) (reads w) i (k # ks)),
        reads := reads w + 2 * sum_list (k # ks),
        ticks := ticks w + sum_list (k # ks) + 2 * length (k # ks),
        log := log w @ fill_events pins (clock w) (pin_in w) (ticks w) (reads w) i (k # ks)\<rparr>)"
      by (simp add: port_after_slot quiet_port_after [OF q])
  qed simp_all
  finally show ?case .
qed

lemma polls_quiet: "list_all quiet (polls c p t r k)"
  by (induction k arbitrary: t r) simp_all

lemma chase_while_total:
  assumes "length ks = num_signal_lights"
    and "on_time (clock w) (pin_in w) m (ticks w) (reads w) ks"
    and "list_all (\<lambda>k. k \<le> n) ks"
  shows "chase_while pins m (Suc n) True w = chase_while pins m n True (after_fill pins w ks)"
proof -
  let ?d = "disableSignals w"
  have l: "length ks + 0 = num_signal_lights" using assms(1) by simp
  have o: "on_time (clock ?d) (pin_in ?d) m (ticks ?d) (reads ?d) ks"
    using assms(2) by (simp add: disableSignals_eq)
  note t = chase_for_total [OF l o assms(3), of pins]
  have "?d\<lparr>port := port_after (port ?d)
                 (fill_events pins (clock ?d) (pin_in ?d) (ticks ?d) (reads ?d) 0 ks),
        reads := reads ?d + 2 * sum_list ks,
        ticks := ticks ?d + sum_list ks + 2 * length ks,
        log := log ?d @ fill_events pins (clock ?d) (pin_in ?d) (ticks ?d) (reads ?d) 0 ks\<rparr>
      = after_fill pins w ks"
    unfolding after_fill_def by (rule world.equality) (simp_all add: disableSignals_eq)
  with t have "chase_for pins m n 0 True ?d = (Some True, after_fill pins w ks)" by simp
  then show ?thesis by simp
qed

lemma chase_while_begins:
  assumes "chase_while pins m (Suc n) True w = (r, w')"
  shows "prefix (log w @ blank_events @ slot_events (pins ! 0) (clock w (ticks w))) (log w')"
proof -
  let ?d = "disableSignals w"
  let ?st = "clock w (ticks w)"
  let ?w1 = "?d\<lparr>port := (port ?d)(pins ! 0 := True, buzzerPin := False), ticks := Suc (ticks ?d),
        log := log ?d @ slot_events (pins ! 0) (clock ?d (ticks ?d))\<rparr>"
  have l1: "log ?w1 = log w @ blank_events @ slot_events (pins ! 0) ?st"
    by (simp add: disableSignals_eq)
  obtain rf w2 where f: "chase_for pins m n 0 True ?d = (rf, w2)" by force
  obtain rw w3 where wt: "wait_for m n (clock ?d (ticks ?d)) True ?w1 = (rw, w3)" by force
  have i: "0 < num_signal_lights \<and> True" by (simp add: num_signal_lights_def)
  note st = chase_for_step [OF i slot_prelude_eq wt]
  from wait_for_facts(1) [OF wt] have l3: "prefix (log ?w1) (log w3)" by (metis prefixI)
  have l2: "prefix (log w3) (log w2)"
  proof (cases rw)
    case None
    with st f show ?thesis by simp
  next
    case (Some b)
    with st f have "chase_for pins m n (Suc 0) b w3 = (rf, w2)" by simp
    from chase_for_run [OF this] show ?thesis by (metis prefixI)
  qed
  have l4: "prefix (log w2) (log w')"
  proof (cases rf)
    case None
    with assms f show ?thesis by simp
  next
    case (Some b)
    with assms f have "chase_while pins m n b w2 = (r, w')" by simp
    from chase_while_run [OF this] show ?thesis by (metis prefixI)
  qed
  from l3 l2 l4 have "prefix (log ?w1) (log w')" by (metis prefix_order.order_trans)
  then show ?thesis unfolding l1 .
qed

lemma fill_lit:
  "bank pins other \<Longrightarrow> length ks + i = num_signal_lights \<Longrightarrow> lit_upto pins other i f \<Longrightarrow>
   lit_upto pins other num_signal_lights (port_after f (fill_events pins c p t r i ks))"
proof (induction ks arbitrary: i f t r)
  case Nil
  then show ?case by simp
next
  case (Cons k ks)
  from Cons.prems(2) have i: "i < num_signal_lights" by simp
  from lit_upto_Suc [OF Cons.prems(1,3) i]
  have l: "lit_upto pins other (Suc i) (f(pins ! i := True, buzzerPin := False))" .
  have n: "length ks + Suc i = num_signal_lights" using Cons.prems(2) by simp
  have e: "port_after f (fill_events pins c p t r i (k # ks)) =
      port_after (f(pins ! i := True, buzzerPin := False))
        (fill_events pins c p (Suc (Suc (t + k))) (r + 2 * k) (Suc i) ks)"
    by (simp add: port_after_slot quiet_port_after [OF polls_quiet])
  show ?case unfolding e using Cons.prems(1) n l by (rule Cons.IH)
qed

lemma after_fill_lit:
  assumes "bank pins other" and "length ks = num_signal_lights"
  shows "lit_upto pins other num_signal_lights (port (after_fill pins w ks))"
proof -
  have "lit_upto pins other 0 (port_after (port w) blank_events)"
    using lit_upto_blank [OF assms(1), of w] by (simp add: disableSignals_port)
  from fill_lit [OF assms(1) _ this, of ks] assms(2) show ?thesis
    by (simp add: after_fill_def)
qed

lemma hazard_while_grows: "hazard_while n flag w = (r, w') \<Longrightarrow> prefix (log w) (log w')"
proof (induction n arbitrary: flag w)
  case 0
  then show ?case by (simp split: if_splits)
next
  case (Suc n)
  show ?case
  proof (cases flag)
    case False
    with Suc.prems show ?thesis by simp
  next
    case True
    obtain st w1 where m1: "millis (buzzerClick (disableSignals w)) = (st, w1)" by force
    obtain r1 w2 where h1: "wait_for hazards n st flag w1 = (r1, w2)" by force
    have p1: "prefix (log w) (log w1)"
      using m1 by (auto simp: millis_def buzzerClick_eq disableSignals_eq)
    from wait_for_facts(1) [OF h1] have p2: "prefix (log w1) (log w2)" by (metis prefixI)
    show ?thesis
    proof (cases r1)
      case None
      with Suc.prems True m1 h1 have "w' = w2"
        by (simp add: hazard_cycle_def hazard_wait_eq)
      with p1 p2 show ?thesis by (metis prefix_order.order_trans)
    next
      case (Some hl)
      obtain st' w3 where m2: "millis (buzzerClick (all_lights_on w2)) = (st', w3)" by force
      obtain r2 w4 where h2: "wait_for hazards n st' hl w3 = (r2, w4)" by force
      have p3: "prefix (log w2) (log w3)"
        using m2 by (auto simp: millis_def buzzerClick_eq all_lights_on_eq)
      from wait_for_facts(1) [OF h2] have p4: "prefix (log w3) (log w4)" by (metis prefixI)
      have c: "hazard_cycle n flag w = (r2, w4)"
        using m1 h1 Some m2 h2 by (simp add: hazard_cycle_def hazard_wait_eq)
      have p5: "prefix (log w4) (log w')"
      proof (cases r2)
        case None
        with Suc.prems True c show ?thesis by simp
      next
        case (Some b)
        with Suc.prems True c have "hazard_while n b w4 = (r, w')" by simp
        then show ?thesis by (rule Suc.IH)
      qed
      from p1 p2 p3 p4 p5 show ?thesis by (metis prefix_order.order_trans)
    qed
  qed
qed

lemma hazard_while_begins:
  assumes "hazard_while (Suc n) True w = (r, w')"
  shows "prefix (log w @ blank_events @ click_events) (log w')"
proof -
  obtain st w1 where m1: "millis (buzzerClick (disableSignals w)) = (st, w1)" by force
  obtain r1 w2 where h1: "wait_for hazards n st True w1 = (r1, w2)" by force
  have p1: "prefix (log w @ blank_events @ click_events) (log w1)"
    using m1 by (auto simp: millis_def buzzerClick_eq disableSignals_eq)
  from wait_for_facts(1) [OF h1] have p2: "prefix (log w1) (log w2)" by (metis prefixI)
  have p3: "prefix (log w2) (log w')"
  proof (cases r1)
    case None
    with assms m1 h1 show ?thesis by (simp add: hazard_cycle_def hazard_wait_eq)
  next
    case (Some hl)
    obtain st' w3 where m2: "millis (buzzerClick (all_lights_on w2)) = (st', w3)" by force
    obtain r2 w4 where h2: "wait_for hazards n st' hl w3 = (r2, w4)" by force
    have q3: "prefix (log w2) (log w3)"
      using m2 by (auto simp: millis_def buzzerClick_eq all_lights_on_eq)
    from wait_for_facts(1) [OF h2] have q4: "prefix (log w3) (log w4)" by (metis prefixI)
    have c: "hazard_cycle n True w = (r2, w4)"
      using m1 h1 Some m2 h2 by (simp add: hazard_cycle_def hazard_wait_eq)
    have q5: "prefix (log w4) (log w')"
    proof (cases r2)
      case None
      with assms c show ?thesis by simp
    next
      case (Some b)
      with assms c have "hazard_while n b w4 = (r, w')" by simp
      then show ?thesis by (rule hazard_while_grows)
    qed
    from q3 q4 q5 show ?thesis by (metis prefix_order.order_trans)
  qed
  from p1 p2 p3 show ?thesis by (metis prefix_order.order_trans)
qed

subsection \<open>Every write to a signal pin\<close>

lemma signal_writes_append [simp]:
  "signal_writes (es @ fs) = signal_writes es @ signal_writes fs"
  by (simp add: signal_writes_def)

lemma signal_writes_Nil [simp]: "signal_writes [] = []"
  by (simp add: signal_writes_def)

lemma signal_writes_click: "signal_writes click_events = []"
  by (simp add: signal_writes_def click_events_def replicate_8)

lemma signal_writes_blank: "signal_writes blank_events = blank_events"
  by (simp add: signal_writes_def blank_events_def num_signal_lights_def upt_4
      leftSignalPins_def rightSignalPins_def buzzerPin_def A0_def)

lemma signal_writes_quiet: "list_all quiet es \<Longrightarrow> signal_writes es = []"
proof (induction es)
  case Nil
  show ?case by simp
next
  case (Cons e es)
  then show ?case by (cases e) (simp_all add: signal_writes_def)
qed

lemma signal_writes_slot:
  "p \<noteq> buzzerPin \<Longrightarrow> signal_writes (slot_events p st) = [Write p True]"
  using signal_writes_click by (simp add: slot_events_def signal_writes_def)

lemma chase_for_writes:
  "chase_for pins m n i flag w = (r, w') \<Longrightarrow> bank pins other \<Longrightarrow>
   prefix (signal_writes (events_since w w')) (map (\<lambda>p. Write p True) (drop i pins))
   \<and> (flag \<and> r = Some True \<longrightarrow>
        signal_writes (events_since w w') = map (\<lambda>p. Write p True) (drop i pins))"
proof (induction pins m n i flag w rule: chase_for.induct)
  case (1 pins m n i flag w)
  from "1.prems"(2) have len: "length pins = num_signal_lights" and b: "buzzerPin \<notin> set pins"
    by (simp_all add: bank_def)
  show ?case
  proof (cases "i < num_signal_lights \<and> flag")
    case False
    with "1.prems"(1) have "w' = w" "r = Some flag" by (simp_all add: chase_for_stop)
    with False len show ?thesis by auto
  next
    case True
    obtain st w1 where pre: "millis (buzzerClick (digitalWrite (pins ! i) True w)) = (st, w1)"
      by force
    obtain rw w2 where wt: "wait_for m n st flag w1 = (rw, w2)" by force
    note sp = slot_prelude [OF pre]
    note wf = wait_for_facts [OF wt]
    let ?we = "events_since w1 w2"
    have l2: "log w2 = log w @ slot_events (pins ! i) st @ ?we"
      using sp(1) wf(1) by simp
    have nb: "pins ! i \<noteq> buzzerPin" using True len b by (metis nth_mem)
    have dr: "drop i pins = pins ! i # drop (Suc i) pins"
      using True len by (simp add: Cons_nth_drop_Suc)
    have a1: "signal_writes (slot_events (pins ! i) st) = [Write (pins ! i) True]"
      "signal_writes ?we = []"
      using nb wf(3) by (simp_all add: signal_writes_slot signal_writes_quiet)
    show ?thesis
    proof (cases rw)
      case None
      with "1.prems"(1) chase_for_step [OF True pre wt] have "w' = w2" "r = None" by simp_all
      moreover have "events_since w w2 = slot_events (pins ! i) st @ ?we"
        using l2 by (rule events_since_append)
      ultimately show ?thesis using a1 dr by simp
    next
      case (Some f)
      with "1.prems"(1) chase_for_step [OF True pre wt]
      have rec: "chase_for pins m n (Suc i) f w2 = (r, w')" by simp
      from "1.IH" [OF True pre [symmetric] wt [symmetric] Some rec "1.prems"(2)]
      have ih: "prefix (signal_writes (events_since w2 w'))
                  (map (\<lambda>p. Write p True) (drop (Suc i) pins))"
        "f \<and> r = Some True \<longrightarrow>
           signal_writes (events_since w2 w') = map (\<lambda>p. Write p True) (drop (Suc i) pins)"
        by simp_all
      from chase_for_run [OF rec] have lr: "log w' = log w2 @ events_since w2 w'"
        and sh: "for_shape m f r (events_since w2 w')" by simp_all
      have es: "events_since w w' = (slot_events (pins ! i) st @ ?we) @ events_since w2 w'"
      proof (rule events_since_append)
        show "log w' = log w @ (slot_events (pins ! i) st @ ?we) @ events_since w2 w'"
          using l2 lr by simp
      qed
      have "r = Some True \<longrightarrow> f" using sh by (auto simp: for_shape_def)
      with ih show ?thesis
        unfolding es dr by (simp add: a1)
    qed
  qed
qed

lemma chase_while_writes:
  "chase_while pins m n flag w = (r, w') \<Longrightarrow> bank pins other \<Longrightarrow>
   prefix (signal_writes (events_since w w')) (concat (replicate n (cycle_writes pins)))"
proof (induction n arbitrary: flag w)
  case 0
  then have "w' = w" by (simp split: if_splits)
  then show ?case by simp
next
  case (Suc n)
  show ?case
  proof (cases flag)
    case False
    with Suc.prems(1) have "w' = w" by simp
    then show ?thesis by simp
  next
    case True
    obtain rf w1 where f: "chase_for pins m n 0 flag (disableSignals w) = (rf, w1)" by force
    let ?fe = "events_since (disableSignals w) w1"
    from chase_for_run [OF f] have fl: "log w1 = log (disableSignals w) @ ?fe" by simp
    from chase_for_writes [OF f Suc.prems(2)] True
    have fo: "prefix (signal_writes ?fe) (map (\<lambda>p. Write p True) pins)"
      "rf = Some True \<longrightarrow> signal_writes ?fe = map (\<lambda>p. Write p True) pins"
      by simp_all
    have l1: "log w1 = log w @ blank_events @ ?fe"
      using fl by (simp add: disableSignals_log)
    have e1: "events_since w w1 = blank_events @ ?fe"
      using l1 by (rule events_since_append)
    have "prefix (signal_writes (events_since w w1)) (cycle_writes pins)"
      unfolding e1 cycle_writes_def using fo(1) by (simp add: signal_writes_blank)
    then have part: "prefix (signal_writes (events_since w w1))
                       (concat (replicate (Suc n) (cycle_writes pins)))"
      using prefix_prefix by fastforce
    show ?thesis
    proof (cases rf)
      case None
      with Suc.prems(1) True f have "w' = w1" by auto
      with part show ?thesis by simp
    next
      case (Some f')
      with Suc.prems(1) True f have rec: "chase_while pins m n f' w1 = (r, w')" by auto
      from Suc.IH [OF rec Suc.prems(2)]
      have ih: "prefix (signal_writes (events_since w1 w'))
                  (concat (replicate n (cycle_writes pins)))" .
      from chase_while_run [OF rec] have lr: "log w' = log w1 @ events_since w1 w'"
        and sh: "while_shape m f' r (events_since w1 w')" by simp_all
      have es: "events_since w w' = (blank_events @ ?fe) @ events_since w1 w'"
      proof (rule events_since_append)
        show "log w' = log w @ (blank_events @ ?fe) @ events_since w1 w'"
          using l1 lr by simp
      qed
      show ?thesis
      proof (cases f')
        case True
        with Some fo(2) have "signal_writes ?fe = map (\<lambda>p. Write p True) pins" by simp
        with ih show ?thesis unfolding es
          by (simp add: signal_writes_blank cycle_writes_def)
      next
        case False
        with sh have "events_since w1 w' = []"
          by (simp add: while_shape_def split: option.splits)
        with part e1 show ?thesis unfolding es by simp
      qed
    qed
  qed
qed

lemma chase_while_slot_lit:
  assumes "chase_while pins m n True w = (r, w')" and "bank pins other"
    and "events_since w w' = pre @ Sampled s # post"
  shows "activations pre \<noteq> []
         \<and> lit_upto pins other (Suc ((length (activations pre) - 1) mod num_signal_lights))
              (port_after (port w) pre)"
proof -
  have "at_counted (slot_lit pins other) 0 (port w) (events_since w w')"
    using assms(1,2) by (rule chase_while_tied) simp
  from at_counted_decomp [OF this assms(3)] show ?thesis by (simp add: slot_lit_def)
qed

lemma chase_while_cycle:
  assumes "bank pins other" and "length ks = num_signal_lights"
    and "on_time (clock w) (pin_in w) m (ticks w) (reads w) ks"
    and "list_all (\<lambda>k. k \<le> n) ks"
  shows "chase_while pins m (Suc n) True w = chase_while pins m n True (after_fill pins w ks)"
    and "events_since w (after_fill pins w ks) =
           blank_events @ fill_events pins (clock w) (pin_in w) (ticks w) (reads w) 0 ks"
    and "lit_upto pins other num_signal_lights (port (after_fill pins w ks))"
    and "prefix (log (after_fill pins w ks) @ blank_events
                 @ slot_events (pins ! 0) (clock w (ticks (after_fill pins w ks))))
           (log (snd (chase_while pins m (Suc (Suc n)) True w)))"
proof -
  show "chase_while pins m (Suc n) True w = chase_while pins m n True (after_fill pins w ks)"
    using assms(2-4) by (rule chase_while_total)
  show "events_since w (after_fill pins w ks) =
           blank_events @ fill_events pins (clock w) (pin_in w) (ticks w) (reads w) 0 ks"
    by (rule events_since_append) (simp add: after_fill_def)
  show "lit_upto pins other num_signal_lights (port (after_fill pins w ks))"
    using assms(1,2) by (rule after_fill_lit)
  have "list_all (\<lambda>k. k \<le> Suc n) ks"
    using assms(4) unfolding list_all_iff by auto
  from chase_while_total [OF assms(2,3) this]
  have e: "chase_while pins m (Suc (Suc n)) True w =
      chase_while pins m (Suc n) True (after_fill pins w ks)" .
  have c: "clock (after_fill pins w ks) = clock w" by (simp add: after_fill_def)
  obtain r w' where x: "chase_while pins m (Suc n) True (after_fill pins w ks) = (r, w')"
    by force
  from chase_while_begins [OF x] show "prefix (log (after_fill pins w ks) @ blank_events
                 @ slot_events (pins ! 0) (clock w (ticks (after_fill pins w ks))))
           (log (snd (chase_while pins m (Suc (Suc n)) True w)))"
    unfolding e x c by simp
qed

lemma hazard_pass_port:
  "list_all (port (after_hazard_pass w k1 k2)) (leftSignalPins @ rightSignalPins)"
  by (simp add: after_hazard_pass_def port_after_click lights_on_events_def
      num_signal_lights_def upt_4 leftSignalPins_def rightSignalPins_def buzzerPin_def A0_def)

lemma hazard_pass_total:
  assumes "runs_out (clock w) (pin_in w) hazards (clock w (ticks w)) (Suc (ticks w)) (reads w) k1"
    and "runs_out (clock w) (pin_in w) hazards (clock w (ticks w + k1 + 2))
           (ticks w + k1 + 3) (reads w + 2 * k1) k2"
    and "k1 \<le> n" and "k2 \<le> n"
  shows "hazard_cycle n True w = (Some True, after_hazard_pass w k1 k2)"
    and "engageHazardLights (Suc n) w = engageHazardLights n (after_hazard_pass w k1 k2)"
    and "prefix (log (after_hazard_pass w k1 k2) @ blank_events @ click_events)
           (log (snd (engageHazardLights (Suc (Suc n)) w)))"
proof -
  show c: "hazard_cycle n True w = (Some True, after_hazard_pass w k1 k2)"
    unfolding after_hazard_pass_def using assms by (rule hazard_cycle_total)
  then show "engageHazardLights (Suc n) w = engageHazardLights n (after_hazard_pass w k1 k2)"
    by (simp add: engageHazardLights_def)
  from assms(3,4) have "k1 \<le> Suc n" "k2 \<le> Suc n" by simp_all
  from hazard_cycle_total [OF assms(1,2) this]
  have "hazard_cycle (Suc n) True w = (Some True, after_hazard_pass w k1 k2)"
    unfolding after_hazard_pass_def .
  then have e: "engageHazardLights (Suc (Suc n)) w =
      hazard_while (Suc n) True (after_hazard_pass w k1 k2)"
    by (simp add: engageHazardLights_def)
  obtain r w' where x: "hazard_while (Suc n) True (after_hazard_pass w k1 k2) = (r, w')"
    by force
  from hazard_while_begins [OF x]
  show "prefix (log (after_hazard_pass w k1 k2) @ blank_events @ click_events)
           (log (snd (engageHazardLights (Suc (Suc n)) w)))"
    unfolding e x by simp
qed

section \<open>The input sampler\<close>

text \<open>
  Claim C1. Whatever the two button lines read, \<^verbatim>\<open>readButtonStates\<close> returns the mode of
  the truth table: neither asserted gives off, left only gives left, right only gives
  right, both give hazards. The left line is the next reading of the board, the right
  line the one after it.
\<close>

theorem readButtonStates_truth_table:
  "fst (readButtonStates w) =
     truth_table (pin_in w (reads w) leftButtonPin) (pin_in w (Suc (reads w)) rightButtonPin)
   \<and> truth_table False False = off \<and> truth_table True False = left
   \<and> truth_table False True = right \<and> truth_table True True = hazards"
  by (simp add: readButtonStates_result)

text \<open>
  Claim C9. \<^verbatim>\<open>readButtonStates\<close> writes no pin: the port is as it was and none of the
  events it adds is a write. Its result depends on the two button readings only: two
  boards that agree on them give the same mode, whatever else differs.
\<close>

theorem readButtonStates_no_output:
  "port (snd (readButtonStates w)) = port w
   \<and> list_all (\<lambda>e. \<not> is_write e) (events_since w (snd (readButtonStates w)))
   \<and> (pin_in w (reads w) leftButtonPin = pin_in v (reads v) leftButtonPin
        \<and> pin_in w (Suc (reads w)) rightButtonPin = pin_in v (Suc (reads v)) rightButtonPin
      \<longrightarrow> fst (readButtonStates w) = fst (readButtonStates v))"
  by (simp add: readButtonStates_port readButtonStates_result
      events_since_append [OF readButtonStates_log])

theorem readButtonStates_no_output_witness:
  "pin_in released_board (reads released_board) leftButtonPin
     = pin_in (released_board\<lparr>port := (\<lambda>p. False), reads := 7, log := [DelayMs 1]\<rparr>) 7 leftButtonPin
   \<and> pin_in released_board (Suc (reads released_board)) rightButtonPin
     = pin_in (released_board\<lparr>port := (\<lambda>p. False), reads := 7, log := [DelayMs 1]\<rparr>) 8 rightButtonPin
   \<and> fst (readButtonStates released_board)
     = fst (readButtonStates (released_board\<lparr>port := (\<lambda>p. False), reads := 7, log := [DelayMs 1]\<rparr>))
   \<and> fst (readButtonStates released_board) = off
   \<and> port (snd (readButtonStates released_board)) = port released_board"
  using readButtonStates_no_output
    [of released_board "released_board\<lparr>port := (\<lambda>p. False), reads := 7, log := [DelayMs 1]\<rparr>"]
  by (simp add: released_board_def readButtonStates_def digitalRead_def delay_def)

section \<open>The buzzer driver\<close>

text \<open>
  Claim C6. Every call of \<^verbatim>\<open>buzzerClick\<close>, on any board, adds exactly eight times the
  four events: buzzer pin HIGH, 128 microseconds, buzzer pin LOW, 128 microseconds.
  No other pin is written: the port differs from the old one on the buzzer pin at most.
\<close>

theorem buzzerClick_eight_toggles:
  "events_since w (buzzerClick w) =
     concat (replicate 8
       [Write buzzerPin True, DelayUs 128, Write buzzerPin False, DelayUs 128])
   \<and> port (buzzerClick w) = (port w)(buzzerPin := False)"
  by (simp add: buzzerClick_port events_since_append [OF buzzerClick_log] click_events_def)

text \<open>
  Claim C10. When \<^verbatim>\<open>buzzerClick\<close> returns, the buzzer pin is LOW, whatever it was before;
  the last write of the call is that LOW.
\<close>

theorem buzzerClick_leaves_low:
  "\<not> port (buzzerClick w) buzzerPin
   \<and> last (filter is_write (events_since w (buzzerClick w))) = Write buzzerPin False"
  by (simp add: buzzerClick_port events_since_append [OF buzzerClick_log] click_events_def
      numeral_eq_Suc)

section \<open>The all-off action\<close>

text \<open>
  Claim C7. From any port state, after \<^verbatim>\<open>disableSignals\<close> every signal output of both
  banks is LOW, and a second call leaves the port as the first one did.
\<close>

theorem disableSignals_all_low:
  "(\<forall>p \<in> set leftSignalPins \<union> set rightSignalPins. \<not> port (disableSignals w) p)
   \<and> port (disableSignals (disableSignals w)) = port (disableSignals w)"
  by (auto simp add: disableSignals_def digitalWrite_def num_signal_lights_def
      upt_4 leftSignalPins_def rightSignalPins_def)

theorem disableSignals_all_low_witness:
  "port released_board 9 \<and> 9 \<in> set leftSignalPins \<union> set rightSignalPins
   \<and> \<not> port (disableSignals released_board) 9
   \<and> port (disableSignals (disableSignals released_board)) = port (disableSignals released_board)"
  using disableSignals_all_low [of released_board]
  by (simp add: released_board_def leftSignalPins_def)

section \<open>The turn signals\<close>

text \<open>
  Claim C2 as stated fails. On \<open>left_held_board\<close> every sample returns left, the wait
  of slot 0 times out, and the fuel stops the run inside the wait of slot 1: at that
  point of \<^verbatim>\<open>leftTurnSignal\<close> two outputs of the left bank are lit at once.
\<close>

theorem left_chase_two_lit:
  "\<not> at_most_one_lit leftSignalPins
        (port (snd (leftTurnSignal (Suc (Suc 0)) left_held_board)))
   \<and> list_all (keeps left)
        (events_since left_held_board (snd (leftTurnSignal (Suc (Suc 0)) left_held_board)))"
  by (simp add: run_simps left_held_board_def at_most_one_lit_def leftSignalPins_def
      leftButtonPin_def rightButtonPin_def buzzerPin_def A0_def keeps_blank keeps_click)

text \<open>
  Claim C2, amended. The left sequence fills the bank, it does not move a single light.

  For every run of \<^verbatim>\<open>leftTurnSignal\<close>, on any board and with any fuel:
  the writes that reach a signal pin are, cycle after cycle, the eight LOW writes of the
  blanking pass and then one HIGH write to each slot of the left bank in slot order
  0, 1, 2, 3, and no others, so a slot once lit stays lit until the blanking pass that
  starts the next cycle; whenever a sample is taken, the lit outputs are exactly the
  slots of the left bank from 0 up to the slot lit last, and the right bank is dark;
  and a write that follows a clock reading \<open>t\<close> (the next slot, or the blanking pass of
  the next cycle) comes only after a wait that started at a reading \<open>st\<close> taken right
  after the click, with nothing but clock readings and samples since, and \<open>t - st\<close> not
  below \<^verbatim>\<open>interval\<close>.

  While Left is held and the clock advances (the four waits of a cycle find left
  selected and the interval unfinished \<open>ks\<close> times, then the interval over), the
  function, given fuel for these waits, does run the cycle: the blanking pass, then for
  each slot in order the HIGH write, one click, the start time and the polls of its wait,
  and nothing else. All four slots of the left bank are lit at its end, the right bank is
  dark, and the function goes on from there with the next cycle, which begins with the
  blanking pass and slot 0.

  The same for \<^verbatim>\<open>rightTurnSignal\<close> with the banks exchanged.
\<close>

theorem turn_signal_fills_bank:
  "(leftTurnSignal n w = (r, w') \<longrightarrow>
      prefix (signal_writes (events_since w w'))
        (concat (replicate n (blank_events @ map (\<lambda>p. Write p True) leftSignalPins)))
      \<and> prefix (activations (events_since w w')) (concat (replicate n leftSignalPins))
      \<and> (\<forall>pre s post. events_since w w' = pre @ Sampled s # post \<longrightarrow>
            activations pre \<noteq> []
            \<and> lit_upto leftSignalPins rightSignalPins
                 (Suc ((length (activations pre) - 1) mod num_signal_lights))
                 (port_after (port w) pre))
      \<and> paced (events_since w w'))
   \<and> (length ks = num_signal_lights
       \<and> on_time (clock w) (pin_in w) left (ticks w) (reads w) ks
       \<and> list_all (\<lambda>k. k \<le> n) ks \<longrightarrow>
      leftTurnSignal (Suc n) w = leftTurnSignal n (after_fill leftSignalPins w ks)
      \<and> events_since w (after_fill leftSignalPins w ks) =
           blank_events
           @ fill_events leftSignalPins (clock w) (pin_in w) (ticks w) (reads w) 0 ks
      \<and> lit_upto leftSignalPins rightSignalPins num_signal_lights
           (port (after_fill leftSignalPins w ks))
      \<and> prefix (log (after_fill leftSignalPins w ks) @ blank_events
                 @ slot_events (leftSignalPins ! 0)
                     (clock w (ticks (after_fill leftSignalPins w ks))))
           (log (snd (leftTurnSignal (Suc (Suc n)) w))))
   \<and> (rightTurnSignal n w = (r, w') \<longrightarrow>
      prefix (signal_writes (events_since w w'))
        (concat (replicate n (blank_events @ map (\<lambda>p. Write p True) rightSignalPins)))
      \<and> prefix (activations (events_since w w')) (concat (replicate n rightSignalPins))
      \<and> (\<forall>pre s post. events_since w w' = pre @ Sampled s # post \<longrightarrow>
            activations pre \<noteq> []
            \<and> lit_upto rightSignalPins leftSignalPins
                 (Suc ((length (activations pre) - 1) mod num_signal_lights))
                 (port_after (port w) pre))
      \<and> paced (events_since w w'))
   \<and> (length ks = num_signal_lights
       \<and> on_time (clock w) (pin_in w) right (ticks w) (reads w) ks
       \<and> list_all (\<lambda>k. k \<le> n) ks \<longrightarrow>
      rightTurnSignal (Suc n) w = rightTurnSignal n (after_fill rightSignalPins w ks)
      \<and> events_since w (after_fill rightSignalPins w ks) =
           blank_events
           @ fill_events rightSignalPins (clock w) (pin_in w) (ticks w) (reads w) 0 ks
      \<and> lit_upto rightSignalPins leftSignalPins num_signal_lights
           (port (after_fill rightSignalPins w ks))
      \<and> prefix (log (after_fill rightSignalPins w ks) @ blank_events
                 @ slot_events (rightSignalPins ! 0)
                     (clock w (ticks (after_fill rightSignalPins w ks))))
           (log (snd (rightTurnSignal (Suc (Suc n)) w))))"
proof (intro conjI impI allI)
  assume "leftTurnSignal n w = (r, w')"
  then have c: "chase_while leftSignalPins left n True w = (r, w')"
    by (simp add: leftTurnSignal_def left_while_eq)
  show "prefix (activations (events_since w w')) (concat (replicate n leftSignalPins))"
    using c bank_left by (rule chase_while_order)
  show "prefix (signal_writes (events_since w w'))
        (concat (replicate n (blank_events @ map (\<lambda>p. Write p True) leftSignalPins)))"
    using chase_while_writes [OF c bank_left] by (simp add: cycle_writes_def)
  show "paced (events_since w w')" using c by (rule chase_while_paced)
  fix pre s post assume e: "events_since w w' = pre @ Sampled s # post"
  from chase_while_slot_lit [OF c bank_left e]
  show "activations pre \<noteq> []"
    and "lit_upto leftSignalPins rightSignalPins
           (Suc ((length (activations pre) - 1) mod num_signal_lights))
           (port_after (port w) pre)"
    by simp_all
next
  assume "rightTurnSignal n w = (r, w')"
  then have c: "chase_while rightSignalPins right n True w = (r, w')"
    by (simp add: rightTurnSignal_def right_while_eq)
  show "prefix (activations (events_since w w')) (concat (replicate n rightSignalPins))"
    using c bank_right by (rule chase_while_order)
  show "prefix (signal_writes (events_since w w'))
        (concat (replicate n (blank_events @ map (\<lambda>p. Write p True) rightSignalPins)))"
    using chase_while_writes [OF c bank_right] by (simp add: cycle_writes_def)
  show "paced (events_since w w')" using c by (rule chase_while_paced)
  fix pre s post assume e: "events_since w w' = pre @ Sampled s # post"
  from chase_while_slot_lit [OF c bank_right e]
  show "activations pre \<noteq> []"
    and "lit_upto rightSignalPins leftSignalPins
           (Suc ((length (activations pre) - 1) mod num_signal_lights))
           (port_after (port w) pre)"
    by simp_all
next
  assume "length ks = num_signal_lights
       \<and> on_time (clock w) (pin_in w) left (ticks w) (reads w) ks
       \<and> list_all (\<lambda>k. k \<le> n) ks"
  then have h: "length ks = num_signal_lights"
    "on_time (clock w) (pin_in w) left (ticks w) (reads w) ks" "list_all (\<lambda>k. k \<le> n) ks"
    by simp_all
  note t = chase_while_cycle [OF bank_left h]
  show "leftTurnSignal (Suc n) w = leftTurnSignal n (after_fill leftSignalPins w ks)"
    unfolding leftTurnSignal_def left_while_eq by (rule t(1))
  show "events_since w (after_fill leftSignalPins w ks) =
           blank_events
           @ fill_events leftSignalPins (clock w) (pin_in w) (ticks w) (reads w) 0 ks"
    by (rule t(2))
  show "lit_upto leftSignalPins rightSignalPins num_signal_lights
           (port (after_fill leftSignalPins w ks))"
    by (rule t(3))
  show "prefix (log (after_fill leftSignalPins w ks) @ blank_events
                 @ slot_events (leftSignalPins ! 0)
                     (clock w (ticks (after_fill leftSignalPins w ks))))
           (log (snd (leftTurnSignal (Suc (Suc n)) w)))"
    unfolding leftTurnSignal_def left_while_eq by (rule t(4))
next
  assume "length ks = num_signal_lights
       \<and> on_time (clock w) (pin_in w) right (ticks w) (reads w) ks
       \<and> list_all (\<lambda>k. k \<le> n) ks"
  then have h: "length ks = num_signal_lights"
    "on_time (clock w) (pin_in w) right (ticks w) (reads w) ks" "list_all (\<lambda>k. k \<le> n) ks"
    by simp_all
  note t = chase_while_cycle [OF bank_right h]
  show "rightTurnSignal (Suc n) w = rightTurnSignal n (after_fill rightSignalPins w ks)"
    unfolding rightTurnSignal_def right_while_eq by (rule t(1))
  show "events_since w (after_fill rightSignalPins w ks) =
           blank_events
           @ fill_events rightSignalPins (clock w) (pin_in w) (ticks w) (reads w) 0 ks"
    by (rule t(2))
  show "lit_upto rightSignalPins leftSignalPins num_signal_lights
           (port (after_fill rightSignalPins w ks))"
    by (rule t(3))
  show "prefix (log (after_fill rightSignalPins w ks) @ blank_events
                 @ slot_events (rightSignalPins ! 0)
                     (clock w (ticks (after_fill rightSignalPins w ks))))
           (log (snd (rightTurnSignal (Suc (Suc n)) w)))"
    unfolding rightTurnSignal_def right_while_eq by (rule t(4))
qed

theorem turn_signal_fills_bank_witness:
  "events_since left_held_board (snd (leftTurnSignal (Suc (Suc 0)) left_held_board)) =
     (blank_events @ slot_events (leftSignalPins ! 0) 0) @ Millis 500
       # Write (leftSignalPins ! 1) True
       # click_events @ [Millis 500, Millis 500, Read leftButtonPin True,
            Read rightButtonPin False, DelayMs 1, Sampled left, Millis 500]
   \<and> waited (blank_events @ slot_events (leftSignalPins ! 0) 0) 500
   \<and> events_since left_held_board (snd (leftTurnSignal (Suc (Suc 0)) left_held_board)) =
     (blank_events @ slot_events (leftSignalPins ! 0) 0 @ Millis 500
       # slot_events (leftSignalPins ! 1) 500 @ [Millis 500, Read leftButtonPin True,
            Read rightButtonPin False, DelayMs 1]) @ Sampled left # [Millis 500]
   \<and> lit_upto leftSignalPins rightSignalPins 2
        (port_after (port left_held_board)
          (blank_events @ slot_events (leftSignalPins ! 0) 0 @ Millis 500
           # slot_events (leftSignalPins ! 1) 500 @ [Millis 500, Read leftButtonPin True,
                Read rightButtonPin False, DelayMs 1]))
   \<and> prefix (signal_writes
         (events_since left_held_board (snd (leftTurnSignal (Suc (Suc 0)) left_held_board))))
        (concat (replicate (Suc (Suc 0))
           (blank_events @ map (\<lambda>p. Write p True) leftSignalPins)))
   \<and> length [1, 1, 1, 1 :: nat] = num_signal_lights
   \<and> on_time (clock left_walk_board) (pin_in left_walk_board) left
        (ticks left_walk_board) (reads left_walk_board) [1, 1, 1, 1]
   \<and> list_all (\<lambda>k. k \<le> Suc 0) [1, 1, 1, 1]
   \<and> leftTurnSignal (Suc (Suc 0)) left_walk_board =
        leftTurnSignal (Suc 0) (after_fill leftSignalPins left_walk_board [1, 1, 1, 1])
   \<and> lit_upto leftSignalPins rightSignalPins num_signal_lights
        (port (after_fill leftSignalPins left_walk_board [1, 1, 1, 1]))
   \<and> prefix (log (after_fill leftSignalPins left_walk_board [1, 1, 1, 1]) @ blank_events
              @ slot_events (leftSignalPins ! 0) 3000)
        (log (snd (leftTurnSignal (Suc (Suc (Suc 0))) left_walk_board)))
   \<and> events_since right_held_board (snd (rightTurnSignal (Suc (Suc 0)) right_held_board)) =
     (blank_events @ slot_events (rightSignalPins ! 0) 0 @ Millis 500
       # slot_events (rightSignalPins ! 1) 500 @ [Millis 500, Read leftButtonPin False,
            Read rightButtonPin True, DelayMs 1]) @ Sampled right # [Millis 500]
   \<and> lit_upto rightSignalPins leftSignalPins 2
        (port_after (port right_held_board)
          (blank_events @ slot_events (rightSignalPins ! 0) 0 @ Millis 500
           # slot_events (rightSignalPins ! 1) 500 @ [Millis 500, Read leftButtonPin False,
                Read rightButtonPin True, DelayMs 1]))
   \<and> on_time (clock right_walk_board) (pin_in right_walk_board) right
        (ticks right_walk_board) (reads right_walk_board) [1, 1, 1, 1]
   \<and> rightTurnSignal (Suc (Suc 0)) right_walk_board =
        rightTurnSignal (Suc 0) (after_fill rightSignalPins right_walk_board [1, 1, 1, 1])"
proof -
  let ?L = "leftTurnSignal (Suc (Suc 0)) left_held_board"
  let ?R = "rightTurnSignal (Suc (Suc 0)) right_held_board"
  let ?lpre = "blank_events @ slot_events (leftSignalPins ! 0) 0 @ Millis 500
       # slot_events (leftSignalPins ! 1) 500 @ [Millis 500, Read leftButtonPin True,
            Read rightButtonPin False, DelayMs 1]"
  let ?rpre = "blank_events @ slot_events (rightSignalPins ! 0) 0 @ Millis 500
       # slot_events (rightSignalPins ! 1) 500 @ [Millis 500, Read leftButtonPin False,
            Read rightButtonPin True, DelayMs 1]"
  have l: "?L = (fst ?L, snd ?L)" and r: "?R = (fst ?R, snd ?R)" by simp_all
  note tl = turn_signal_fills_bank [THEN conjunct1, rule_format, OF l]
  note tr = turn_signal_fills_bank [THEN conjunct2, THEN conjunct2, THEN conjunct1,
      rule_format, OF r]
  have l1: "events_since left_held_board (snd ?L) =
     (blank_events @ slot_events (leftSignalPins ! 0) 0) @ Millis 500
       # Write (leftSignalPins ! 1) True
       # click_events @ [Millis 500, Millis 500, Read leftButtonPin True,
            Read rightButtonPin False, DelayMs 1, Sampled left, Millis 500]"
    by (simp add: run_simps left_held_board_def slot_events_def leftButtonPin_def
        rightButtonPin_def)
  have l2: "events_since left_held_board (snd ?L) = ?lpre @ Sampled left # [Millis 500]"
    unfolding l1 by (simp add: slot_events_def)
  have r1: "events_since right_held_board (snd ?R) =
     (blank_events @ slot_events (rightSignalPins ! 0) 0) @ Millis 500
       # Write (rightSignalPins ! 1) True
       # click_events @ [Millis 500, Millis 500, Read leftButtonPin False,
            Read rightButtonPin True, DelayMs 1, Sampled right, Millis 500]"
    by (simp add: run_simps right_held_board_def left_held_board_def slot_events_def
        leftButtonPin_def rightButtonPin_def)
  have r2: "events_since right_held_board (snd ?R) = ?rpre @ Sampled right # [Millis 500]"
    unfolding r1 by (simp add: slot_events_def)
  from tl have pl: "paced (events_since left_held_board (snd ?L))" by (elim conjE)
  have wl: "waited (blank_events @ slot_events (leftSignalPins ! 0) 0) 500"
    using pl l1 unfolding paced_def by blast
  have al: "length (activations ?lpre) = 2"
    by (simp add: activations_blank activations_slot activations_Cons leftSignalPins_def
        buzzerPin_def A0_def)
  have ar: "length (activations ?rpre) = 2"
    by (simp add: activations_blank activations_slot activations_Cons rightSignalPins_def
        buzzerPin_def A0_def)
  from tl [THEN conjunct2, THEN conjunct2, THEN conjunct1, rule_format, OF l2]
  have sl: "lit_upto leftSignalPins rightSignalPins 2 (port_after (port left_held_board) ?lpre)"
    unfolding al by (simp add: num_signal_lights_def numeral_2_eq_2)
  from tr [THEN conjunct2, THEN conjunct2, THEN conjunct1, rule_format, OF r2]
  have sr: "lit_upto rightSignalPins leftSignalPins 2 (port_after (port right_held_board) ?rpre)"
    unfolding ar by (simp add: num_signal_lights_def numeral_2_eq_2)
  note ol = tl [THEN conjunct1]
  have h1: "length [1, 1, 1, 1 :: nat] = num_signal_lights" by (simp add: num_signal_lights_def)
  have h2: "on_time (clock left_walk_board) (pin_in left_walk_board) left
        (ticks left_walk_board) (reads left_walk_board) [1, 1, 1, 1]"
    by (simp add: left_walk_board_def mode_read_def interval_def leftButtonPin_def
        rightButtonPin_def)
  have h2r: "on_time (clock right_walk_board) (pin_in right_walk_board) right
        (ticks right_walk_board) (reads right_walk_board) [1, 1, 1, 1]"
    by (simp add: right_walk_board_def left_walk_board_def mode_read_def interval_def
        leftButtonPin_def rightButtonPin_def)
  have h3: "list_all (\<lambda>k. k \<le> Suc 0) [1, 1, 1, 1]" by simp
  note cl = turn_signal_fills_bank [THEN conjunct2, THEN conjunct1, rule_format,
      OF conjI [OF h1 conjI [OF h2 h3]]]
  note cr = turn_signal_fills_bank [THEN conjunct2, THEN conjunct2, THEN conjunct2, rule_format,
      OF conjI [OF h1 conjI [OF h2r h3]]]
  have tk: "clock left_walk_board (ticks (after_fill leftSignalPins left_walk_board [1, 1, 1, 1]))
      = 3000"
    by (simp add: after_fill_def left_walk_board_def)
  note c1 = cl [THEN conjunct1]
  note c3 = cl [THEN conjunct2, THEN conjunct2, THEN conjunct1]
  note c4 = cl [THEN conjunct2, THEN conjunct2, THEN conjunct2, unfolded tk]
  note d1 = cr [THEN conjunct1]
  from l1 wl l2 sl ol h1 h2 h3 c1 c3 c4 r2 sr h2r d1 show ?thesis by (intro conjI)
qed

text \<open>
  Claim C5. In \<^verbatim>\<open>leftTurnSignal\<close>, once a sample returns a mode other than left, the
  function does one thing more, the \<^verbatim>\<open>millis()\<close> of the wait loop's condition, and
  returns: whatever the fuel, the events after that sample are a single clock reading,
  so no slot is lit, no click made and nothing blanked, and the rest of the interval is
  not waited out. The same holds for \<^verbatim>\<open>rightTurnSignal\<close> and the mode right.
\<close>

theorem turn_signal_stops_at_cancel:
  "(leftTurnSignal n w = (r, w') \<and> events_since w w' = pre @ Sampled s # post \<and> s \<noteq> left
      \<longrightarrow> r = Some () \<and> (\<exists>t. post = [Millis t]))
   \<and> (rightTurnSignal n w = (r, w') \<and> events_since w w' = pre @ Sampled s # post \<and> s \<noteq> right
      \<longrightarrow> r = Some () \<and> (\<exists>t. post = [Millis t]))"
  using chase_while_stops [of leftSignalPins left n w r w' pre s post]
    chase_while_stops [of rightSignalPins right n w r w' pre s post]
  by (simp add: leftTurnSignal_def rightTurnSignal_def left_while_eq right_while_eq)

theorem turn_signal_stops_at_cancel_witness:
  "events_since released_board (snd (leftTurnSignal (Suc (Suc 0)) released_board)) =
     (blank_events @ slot_events (leftSignalPins ! 0) 0 @
        [Millis 0, Read leftButtonPin False, Read rightButtonPin False, DelayMs 1])
     @ Sampled off # [Millis 0]
   \<and> off \<noteq> left \<and> fst (leftTurnSignal (Suc (Suc 0)) released_board) = Some ()
   \<and> events_since released_board (snd (rightTurnSignal (Suc (Suc 0)) released_board)) =
     (blank_events @ slot_events (rightSignalPins ! 0) 0 @
        [Millis 0, Read leftButtonPin False, Read rightButtonPin False, DelayMs 1])
     @ Sampled off # [Millis 0]
   \<and> off \<noteq> right \<and> fst (rightTurnSignal (Suc (Suc 0)) released_board) = Some ()"
proof -
  let ?L = "leftTurnSignal (Suc (Suc 0)) released_board"
  let ?R = "rightTurnSignal (Suc (Suc 0)) released_board"
  let ?sample = "[Millis 0, Read leftButtonPin False, Read rightButtonPin False, DelayMs 1]"
  have el: "events_since released_board (snd ?L) =
      (blank_events @ slot_events (leftSignalPins ! 0) 0 @ ?sample) @ Sampled off # [Millis 0]"
    by (simp add: run_simps released_board_def slot_events_def)
  have er: "events_since released_board (snd ?R) =
      (blank_events @ slot_events (rightSignalPins ! 0) 0 @ ?sample) @ Sampled off # [Millis 0]"
    by (simp add: run_simps released_board_def slot_events_def)
  have l: "?L = (fst ?L, snd ?L)" and r: "?R = (fst ?R, snd ?R)" by simp_all
  have nl: "off \<noteq> left" and nr: "off \<noteq> right" by simp_all
  from turn_signal_stops_at_cancel [THEN conjunct1, rule_format, OF conjI [OF l conjI [OF el nl]]]
  have fl: "fst ?L = Some ()" by (rule conjunct1)
  from turn_signal_stops_at_cancel [THEN conjunct2, rule_format, OF conjI [OF r conjI [OF er nr]]]
  have fr: "fst ?R = Some ()" by (rule conjunct1)
  from el nl fl er nr fr show ?thesis by (intro conjI)
qed

text \<open>
  Claim C8. \<^verbatim>\<open>leftTurnSignal\<close> returns only after a sample other than left, and with no
  blanking pass: the log ends with that sample and one clock reading, the port at the
  return is the port as it was when the sample was taken, so every output lit then is
  still lit, the first slot of the bank among them. The same for \<^verbatim>\<open>rightTurnSignal\<close>.
\<close>

theorem turn_signal_returns_lit:
  "(leftTurnSignal n w = (Some (), w') \<longrightarrow>
      (\<exists>pre s t. events_since w w' = pre @ [Sampled s, Millis t] \<and> s \<noteq> left
         \<and> port w' = port_after (port w) pre \<and> port w' (leftSignalPins ! 0)))
   \<and> (rightTurnSignal n w = (Some (), w') \<longrightarrow>
      (\<exists>pre s t. events_since w w' = pre @ [Sampled s, Millis t] \<and> s \<noteq> right
         \<and> port w' = port_after (port w) pre \<and> port w' (rightSignalPins ! 0)))"
  using chase_while_returns [of leftSignalPins left n w w', OF _ bank_left]
    chase_while_returns [of rightSignalPins right n w w', OF _ bank_right]
  by (simp add: leftTurnSignal_def rightTurnSignal_def left_while_eq right_while_eq)

theorem turn_signal_returns_lit_witness:
  "fst (leftTurnSignal (Suc (Suc 0)) released_board) = Some ()
   \<and> port (snd (leftTurnSignal (Suc (Suc 0)) released_board)) (leftSignalPins ! 0)
   \<and> fst (rightTurnSignal (Suc (Suc 0)) released_board) = Some ()
   \<and> port (snd (rightTurnSignal (Suc (Suc 0)) released_board)) (rightSignalPins ! 0)"
proof -
  let ?L = "leftTurnSignal (Suc (Suc 0)) released_board"
  let ?R = "rightTurnSignal (Suc (Suc 0)) released_board"
  have l: "fst ?L = Some ()" and r: "fst ?R = Some ()"
    by (simp_all add: run_simps released_board_def)
  have l': "?L = (Some (), snd ?L)" by (rule prod_eqI) (simp_all only: l fst_conv snd_conv)
  have r': "?R = (Some (), snd ?R)" by (rule prod_eqI) (simp_all only: r fst_conv snd_conv)
  from turn_signal_returns_lit [THEN conjunct1, rule_format, OF l']
  have pl: "port (snd ?L) (leftSignalPins ! 0)" by (elim exE conjE)
  from turn_signal_returns_lit [THEN conjunct2, rule_format, OF r']
  have pr: "port (snd ?R) (rightSignalPins ! 0)" by (elim exE conjE)
  show ?thesis
  proof (intro conjI)
    show "fst ?L = Some ()" by (rule l)
    show "port (snd ?L) (leftSignalPins ! 0)" by (rule pl)
    show "fst ?R = Some ()" by (rule r)
    show "port (snd ?R) (rightSignalPins ! 0)" by (rule pr)
  qed
qed

section \<open>The hazard lights\<close>

text \<open>
  Claim C4. While hazards is held and the clock advances (the first wait of a pass finds
  hazards selected and the interval unfinished \<open>k1\<close> times, then the interval over, and
  the second wait likewise \<open>k2\<close> times), a pass of the body of
  \<^verbatim>\<open>while (hazard_lights)\<close>, given fuel for these waits, returns with the flag set and
  does, in this order and nothing else: the blanking pass over both banks, one click, the
  start time, the polls of the first wait, HIGH on every signal output of both banks
  (eight writes in a row, nothing between them), one click, the start time, the polls of
  the second wait. Every signal output is HIGH at its end. \<^verbatim>\<open>engageHazardLights\<close> goes
  on from there, and with fuel for another pass its next events are again the blanking
  pass and one click: each of the two phases begins with exactly one click.

  Conversely every pass that ends with the flag set, on any board, has these events:
  blanking pass, click, start time, a wait without writes or foreign samples that ends
  when the clock has advanced by \<^verbatim>\<open>interval\<close>, all outputs HIGH, click, start time, a
  second such wait.
\<close>

theorem hazard_cycle_order:
  "(runs_out (clock w) (pin_in w) hazards (clock w (ticks w)) (Suc (ticks w)) (reads w) k1
    \<and> runs_out (clock w) (pin_in w) hazards (clock w (ticks w + k1 + 2))
         (ticks w + k1 + 3) (reads w + 2 * k1) k2
    \<and> k1 \<le> n \<and> k2 \<le> n \<longrightarrow>
      hazard_cycle n True w = (Some True, after_hazard_pass w k1 k2)
      \<and> events_since w (after_hazard_pass w k1 k2) =
           blank_events @ click_events
           @ Millis (clock w (ticks w)) # polls (clock w) (pin_in w) (Suc (ticks w)) (reads w) k1
           @ lights_on_events @ click_events
           @ Millis (clock w (ticks w + k1 + 2))
             # polls (clock w) (pin_in w) (ticks w + k1 + 3) (reads w + 2 * k1) k2
      \<and> list_all (port (after_hazard_pass w k1 k2)) (leftSignalPins @ rightSignalPins)
      \<and> engageHazardLights (Suc n) w = engageHazardLights n (after_hazard_pass w k1 k2)
      \<and> prefix (log (after_hazard_pass w k1 k2) @ blank_events @ click_events)
           (log (snd (engageHazardLights (Suc (Suc n)) w))))
   \<and> (hazard_cycle n True w = (Some True, w') \<longrightarrow>
     (\<exists>st wait1 st' wait2.
        events_since w w' =
          blank_events @ click_events @ Millis st # wait1
          @ lights_on_events @ click_events @ Millis st' # wait2
        \<and> list_all quiet wait1 \<and> list_all (keeps hazards) wait1 \<and> timed_out st wait1
        \<and> list_all quiet wait2 \<and> list_all (keeps hazards) wait2 \<and> timed_out st' wait2)
     \<and> engageHazardLights (Suc n) w = hazard_while n True w')"
proof (intro conjI impI)
  assume "runs_out (clock w) (pin_in w) hazards (clock w (ticks w)) (Suc (ticks w)) (reads w) k1
    \<and> runs_out (clock w) (pin_in w) hazards (clock w (ticks w + k1 + 2))
         (ticks w + k1 + 3) (reads w + 2 * k1) k2
    \<and> k1 \<le> n \<and> k2 \<le> n"
  then have h:
    "runs_out (clock w) (pin_in w) hazards (clock w (ticks w)) (Suc (ticks w)) (reads w) k1"
    "runs_out (clock w) (pin_in w) hazards (clock w (ticks w + k1 + 2))
         (ticks w + k1 + 3) (reads w + 2 * k1) k2"
    "k1 \<le> n" "k2 \<le> n"
    by simp_all
  note t = hazard_pass_total [OF h]
  show "hazard_cycle n True w = (Some True, after_hazard_pass w k1 k2)" by (rule t(1))
  show "engageHazardLights (Suc n) w = engageHazardLights n (after_hazard_pass w k1 k2)"
    by (rule t(2))
  show "prefix (log (after_hazard_pass w k1 k2) @ blank_events @ click_events)
           (log (snd (engageHazardLights (Suc (Suc n)) w)))"
    by (rule t(3))
  show "list_all (port (after_hazard_pass w k1 k2)) (leftSignalPins @ rightSignalPins)"
    by (rule hazard_pass_port)
  show "events_since w (after_hazard_pass w k1 k2) =
           blank_events @ click_events
           @ Millis (clock w (ticks w)) # polls (clock w) (pin_in w) (Suc (ticks w)) (reads w) k1
           @ lights_on_events @ click_events
           @ Millis (clock w (ticks w + k1 + 2))
             # polls (clock w) (pin_in w) (ticks w + k1 + 3) (reads w + 2 * k1) k2"
    by (rule events_since_append) (simp add: after_hazard_pass_def hazard_pass_events_def)
next
  assume a: "hazard_cycle n True w = (Some True, w')"
  from hazard_cycle_run [OF a]
  show "\<exists>st wait1 st' wait2.
        events_since w w' =
          blank_events @ click_events @ Millis st # wait1
          @ lights_on_events @ click_events @ Millis st' # wait2
        \<and> list_all quiet wait1 \<and> list_all (keeps hazards) wait1 \<and> timed_out st wait1
        \<and> list_all quiet wait2 \<and> list_all (keeps hazards) wait2 \<and> timed_out st' wait2" .
  from a show "engageHazardLights (Suc n) w = hazard_while n True w'"
    by (simp add: engageHazardLights_def)
qed

theorem hazard_cycle_order_witness:
  "runs_out (clock hazards_held_board) (pin_in hazards_held_board) hazards
      (clock hazards_held_board (ticks hazards_held_board))
      (Suc (ticks hazards_held_board)) (reads hazards_held_board) 1
   \<and> runs_out (clock hazards_held_board) (pin_in hazards_held_board) hazards
      (clock hazards_held_board (ticks hazards_held_board + 1 + 2))
      (ticks hazards_held_board + 1 + 3) (reads hazards_held_board + 2 * 1) 1
   \<and> (1::nat) \<le> Suc 0
   \<and> hazard_cycle (Suc 0) True hazards_held_board =
       (Some True, after_hazard_pass hazards_held_board 1 1)
   \<and> events_since hazards_held_board (after_hazard_pass hazards_held_board 1 1) =
       blank_events @ click_events
       @ Millis 0 # [Millis 250, Read leftButtonPin True, Read rightButtonPin True, DelayMs 1,
                     Sampled hazards, Millis 500]
       @ lights_on_events @ click_events
       @ Millis 750 # [Millis 1000, Read leftButtonPin True, Read rightButtonPin True, DelayMs 1,
                       Sampled hazards, Millis 1250]
   \<and> prefix (log (after_hazard_pass hazards_held_board 1 1) @ blank_events @ click_events)
        (log (snd (engageHazardLights (Suc (Suc (Suc 0))) hazards_held_board)))
   \<and> engageHazardLights (Suc (Suc 0)) hazards_held_board =
       hazard_while (Suc 0) True (after_hazard_pass hazards_held_board 1 1)"
proof -
  let ?B = hazards_held_board
  have h1: "runs_out (clock ?B) (pin_in ?B) hazards (clock ?B (ticks ?B))
      (Suc (ticks ?B)) (reads ?B) 1"
    by (simp add: hazards_held_board_def mode_read_def interval_def)
  have h2: "runs_out (clock ?B) (pin_in ?B) hazards (clock ?B (ticks ?B + 1 + 2))
      (ticks ?B + 1 + 3) (reads ?B + 2 * 1) 1"
    by (simp add: hazards_held_board_def mode_read_def interval_def)
  have h3: "(1::nat) \<le> Suc 0" by simp
  note t = hazard_cycle_order [THEN conjunct1, rule_format,
      OF conjI [OF h1 conjI [OF h2 conjI [OF h3 h3]]]]
  note c = t [THEN conjunct1]
  note p = t [THEN conjunct2, THEN conjunct2, THEN conjunct2, THEN conjunct2]
  have e: "events_since ?B (after_hazard_pass ?B 1 1) =
       blank_events @ click_events
       @ Millis 0 # [Millis 250, Read leftButtonPin True, Read rightButtonPin True, DelayMs 1,
                     Sampled hazards, Millis 500]
       @ lights_on_events @ click_events
       @ Millis 750 # [Millis 1000, Read leftButtonPin True, Read rightButtonPin True, DelayMs 1,
                       Sampled hazards, Millis 1250]"
    unfolding t [THEN conjunct2, THEN conjunct1]
    by (simp add: hazards_held_board_def mode_read_def)
  note r = hazard_cycle_order [THEN conjunct2, rule_format, OF c, THEN conjunct2]
  from h1 h2 h3 c e p r show ?thesis by (intro conjI)
qed

text \<open>
  Claim C3, at a board where hazards is selected for the first sample and released at the
  second, during the wait of the off phase. After that sample \<^verbatim>\<open>engageHazardLights\<close> still
  writes HIGH to all eight signal outputs and clicks the buzzer once more before it
  returns, with every light on.
\<close>

theorem hazard_cancel_in_off_phase:
  "fst (engageHazardLights (Suc (Suc (Suc 0))) hazards_released_board) = Some ()
   \<and> events_since hazards_released_board
        (snd (engageHazardLights (Suc (Suc (Suc 0))) hazards_released_board)) =
       (blank_events @ click_events @
          [Millis 0, Millis 0, Read leftButtonPin True, Read rightButtonPin True, DelayMs 1,
           Sampled hazards,
           Millis 0, Read leftButtonPin False, Read rightButtonPin False, DelayMs 1])
       @ Sampled off # Millis 0 # lights_on_events @ click_events @ [Millis 0, Millis 0]
   \<and> list_all (port (snd (engageHazardLights (Suc (Suc (Suc 0))) hazards_released_board)))
        (leftSignalPins @ rightSignalPins)"
  by (simp add: run_simps hazards_released_board_def lights_on_events_def upt_4
      leftSignalPins_def rightSignalPins_def buzzerPin_def A0_def)

end
